theory Spec2Isabelle
  imports Complex_Main
begin

section \<open>Numeric values and arrays\<close>

text \<open>
  NumPy's float64 values are modelled as the reals extended by the two infinities and
  NaN.  Rounding, overflow and the sign of zero are not modelled; what is modelled is
  where a computation leaves the finite numbers: \<open>0/0\<close>, \<open>x/0\<close>, operations on
  infinities, and the propagation of NaN.
\<close>

datatype fl = Fin real | PInf | NInf | NaN

text \<open>The Python exceptions that the modelled code can raise.\<close>

datatype error =
    IndexError
  | ValueError
  | AxisError
  | ZeroDivisionError
  | RuntimeError
  | LinAlgError

fun isnan :: "fl \<Rightarrow> bool" where
  "isnan NaN = True"
| "isnan _ = False"

fun fadd :: "fl \<Rightarrow> fl \<Rightarrow> fl" where
  "fadd (Fin a) (Fin b) = Fin (a + b)"
| "fadd NaN _ = NaN"
| "fadd _ NaN = NaN"
| "fadd PInf NInf = NaN"
| "fadd NInf PInf = NaN"
| "fadd PInf _ = PInf"
| "fadd _ PInf = PInf"
| "fadd NInf _ = NInf"
| "fadd _ NInf = NInf"

text \<open>The sign of a value: \<open>1\<close>, \<open>-1\<close>, or \<open>0\<close> for zero and NaN.\<close>

fun fsgn :: "fl \<Rightarrow> int" where
  "fsgn (Fin a) = (if a > 0 then 1 else if a < 0 then - 1 else 0)"
| "fsgn PInf = 1"
| "fsgn NInf = - 1"
| "fsgn NaN = 0"

definition inf_of_sign :: "int \<Rightarrow> fl" where
  "inf_of_sign s = (if s > 0 then PInf else if s < 0 then NInf else NaN)"

fun fmul :: "fl \<Rightarrow> fl \<Rightarrow> fl" where
  "fmul (Fin a) (Fin b) = Fin (a * b)"
| "fmul NaN _ = NaN"
| "fmul _ NaN = NaN"
| "fmul a b = inf_of_sign (fsgn a * fsgn b)"

fun fdiv :: "fl \<Rightarrow> fl \<Rightarrow> fl" where
  "fdiv (Fin a) (Fin b) = (if b = 0 then inf_of_sign (fsgn (Fin a)) else Fin (a / b))"
| "fdiv NaN _ = NaN"
| "fdiv _ NaN = NaN"
| "fdiv (Fin a) _ = Fin 0"
| "fdiv PInf (Fin b) = (if b < 0 then NInf else PInf)"
| "fdiv NInf (Fin b) = (if b < 0 then PInf else NInf)"
| "fdiv _ _ = NaN"

fun fsqrt :: "fl \<Rightarrow> fl" where
  "fsqrt (Fin a) = (if a < 0 then NaN else Fin (sqrt a))"
| "fsqrt PInf = PInf"
| "fsqrt NInf = NaN"
| "fsqrt NaN = NaN"

fun fcos :: "fl \<Rightarrow> fl" where
  "fcos (Fin a) = Fin (cos a)"
| "fcos _ = NaN"

fun fsin :: "fl \<Rightarrow> fl" where
  "fsin (Fin a) = Fin (sin a)"
| "fsin _ = NaN"

text \<open>\<open>np.maximum\<close> on two values: NaN wins, otherwise the larger one.\<close>

fun fmax :: "fl \<Rightarrow> fl \<Rightarrow> fl" where
  "fmax NaN _ = NaN"
| "fmax _ NaN = NaN"
| "fmax PInf _ = PInf"
| "fmax _ PInf = PInf"
| "fmax NInf b = b"
| "fmax a NInf = a"
| "fmax (Fin a) (Fin b) = Fin (max a b)"

text \<open>
  An n-dimensional array is its shape and its items, read by a full index (one position
  per axis).  Only the items at indices inside the shape are meaningful.
\<close>

record 'a ndarray =
  shape :: "nat list"
  item :: "nat list \<Rightarrow> 'a"

definition in_shape :: "nat list \<Rightarrow> nat list \<Rightarrow> bool" where
  "in_shape sh idx = (length idx = length sh \<and> list_all2 (<) idx sh)"

text \<open>\<open>np.ndindex(shape)\<close>: every index of the shape, the last axis running fastest.\<close>

fun ndindex :: "nat list \<Rightarrow> nat list list" where
  "ndindex [] = [[]]"
| "ndindex (n # ns) = concat (map (\<lambda>i. map ((#) i) (ndindex ns)) [0..<n])"

definition set_item :: "'a ndarray \<Rightarrow> nat list \<Rightarrow> 'a \<Rightarrow> 'a ndarray" where
  "set_item a idx v = a\<lparr>item := (item a)(idx := v)\<rparr>"

definition map_array :: "('a \<Rightarrow> 'b) \<Rightarrow> 'a ndarray \<Rightarrow> 'b ndarray" where
  "map_array f a = \<lparr>shape = shape a, item = (\<lambda>idx. f (item a idx))\<rparr>"

section \<open>The alpha-coefficient surface (viz.py)\<close>

text \<open>\<open>np.linspace(start, stop, num)\<close> for \<open>num > 1\<close>.\<close>

definition linspace :: "real \<Rightarrow> real \<Rightarrow> nat \<Rightarrow> fl ndarray" where
  "linspace start stop num =
     \<lparr>shape = [num],
      item = (\<lambda>idx. Fin (start + real (hd idx) * ((stop - start) / real (num - 1))))\<rparr>"

text \<open>\<open>np.outer(a, b)\<close> of two one-dimensional arrays.\<close>

definition outer :: "fl ndarray \<Rightarrow> fl ndarray \<Rightarrow> fl ndarray" where
  "outer a b =
     \<lparr>shape = shape a @ shape b,
      item = (\<lambda>idx. fmul (item a (take 1 idx)) (item b (drop 1 idx)))\<rparr>"

definition ones :: "nat list \<Rightarrow> fl ndarray" where
  "ones sh = \<lparr>shape = sh, item = (\<lambda>_. Fin 1)\<rparr>"

text \<open>
  The three weighting kernels live in \<open>unravel.core\<close>, outside the files at hand; they
  are parameters.  A kernel takes the query direction, \<open>vList\<close> and \<open>nList\<close>, and
  returns a tuple whose first component is the coefficient, or raises.
\<close>

type_synonym ('v, 'r) kernel = "fl list \<Rightarrow> 'v list \<Rightarrow> int list \<Rightarrow> error + fl \<times> 'r"

text \<open>The \<open>if/elif/else\<close> on \<open>method\<close> in the loop body, with the \<open>[0]\<close> applied.\<close>

definition alpha_coef ::
  "('v, 'r1) kernel \<Rightarrow> ('v, 'r2) kernel \<Rightarrow> ('v, 'r3) kernel \<Rightarrow> string \<Rightarrow>
   fl list \<Rightarrow> 'v list \<Rightarrow> int list \<Rightarrow> error + fl" where
  "alpha_coef relative_angular_weighting closest_fixel_only angular_weighting method d vList nList =
     (if method = ''raw'' then map_sum id fst (relative_angular_weighting d vList nList)
      else if method = ''cfo'' then map_sum id fst (closest_fixel_only d vList nList)
      else map_sum id fst (angular_weighting d vList nList))"

type_synonym mesh = "fl ndarray \<times> fl ndarray \<times> fl ndarray \<times> fl ndarray"

text \<open>
  The loop \<open>for xyz in np.ndindex(x.shape)\<close>, over the remaining indices; the state is
  the four arrays \<open>x, y, z, coef\<close>, updated in place at \<open>xyz\<close>.
\<close>

fun surface_loop :: "(fl list \<Rightarrow> error + fl) \<Rightarrow> nat list list \<Rightarrow> mesh \<Rightarrow> error + mesh" where
  "surface_loop k [] m = Inr m"
| "surface_loop k (xyz # rest) (x, y, z, coef) =
     (case k [item x xyz, item y xyz, item z xyz] of
        Inl e \<Rightarrow> Inl e
      | Inr a \<Rightarrow>
          surface_loop k rest
            (set_item x xyz (fmul (item x xyz) (fadd a (Fin 1))),
             set_item y xyz (fmul (item y xyz) (fadd a (Fin 1))),
             set_item z xyz (fmul (item z xyz) (fadd a (Fin 1))),
             set_item coef xyz a))"

definition grid_u :: "fl ndarray" where
  "grid_u = linspace 0 (2 * pi) 200"

definition grid_v :: "fl ndarray" where
  "grid_v = linspace 0 pi 200"

definition compute_alpha_surface ::
  "('v, 'r1) kernel \<Rightarrow> ('v, 'r2) kernel \<Rightarrow> ('v, 'r3) kernel \<Rightarrow> 'v list \<Rightarrow> string \<Rightarrow>
   error + mesh" where
  "compute_alpha_surface relative_angular_weighting closest_fixel_only angular_weighting vList method =
     (let nList = replicate (length vList) 0;
          u = grid_u;
          v = grid_v;
          x = outer (map_array fcos u) (map_array fsin v);
          y = outer (map_array fsin u) (map_array fsin v);
          z = outer (ones (shape u)) (map_array fcos v);
          coef = x
      in surface_loop
           (\<lambda>d. alpha_coef relative_angular_weighting closest_fixel_only angular_weighting
                   method d vList nList)
           (ndindex (shape x)) (x, y, z, coef))"

text \<open>
  The surface computed with one kernel \<open>k\<close> and no dispatch on a method name: what "the
  branch of kernel \<open>k\<close>" means in the statements below.
\<close>

definition surface_with :: "('v, 'r) kernel \<Rightarrow> 'v list \<Rightarrow> error + mesh" where
  "surface_with k vList =
     (let nList = replicate (length vList) 0;
          x = outer (map_array fcos grid_u) (map_array fsin grid_v);
          y = outer (map_array fsin grid_u) (map_array fsin grid_v);
          z = outer (ones (shape grid_u)) (map_array fcos grid_v)
      in surface_loop (\<lambda>d. map_sum id fst (k d vList nList))
           (ndindex (shape x)) (x, y, z, x))"

text \<open>The angles and the point of the unit sphere at grid index \<open>(i, j)\<close>.\<close>

definition u_angle :: "nat \<Rightarrow> real" where
  "u_angle i = real i * (2 * pi / 199)"

definition v_angle :: "nat \<Rightarrow> real" where
  "v_angle j = real j * (pi / 199)"

definition sphere_point :: "nat \<Rightarrow> nat \<Rightarrow> fl list" where
  "sphere_point i j =
     [Fin (cos (u_angle i) * sin (v_angle j)),
      Fin (sin (u_angle i) * sin (v_angle j)),
      Fin (cos (v_angle j))]"

section \<open>Tensor maps (utils.py)\<close>

text \<open>
  Evaluating a list of fallible computations in order: the first error is the one
  raised, as when Python evaluates the items of a list display left to right.
\<close>

fun collect :: "(error + 'a) list \<Rightarrow> error + 'a list" where
  "collect [] = Inr []"
| "collect (x # xs) =
     (case x of
        Inl e \<Rightarrow> Inl e
      | Inr v \<Rightarrow> (case collect xs of Inl e \<Rightarrow> Inl e | Inr vs \<Rightarrow> Inr (v # vs)))"

text \<open>
  The process-wide floating-point error handling of NumPy, as \<open>np.seterr\<close> sees it.
\<close>

datatype mode = Ignore | Warn | Raise | Call | Print | Log

record errstate =
  err_divide :: mode
  err_over :: mode
  err_under :: mode
  err_invalid :: mode

definition default_errstate :: errstate where
  "default_errstate =
     \<lparr>err_divide = Warn, err_over = Warn, err_under = Ignore, err_invalid = Warn\<rparr>"

text \<open>\<open>np.seterr(divide=d, invalid=i)\<close>: the other two settings stay as they are.\<close>

definition seterr :: "mode \<Rightarrow> mode \<Rightarrow> errstate \<Rightarrow> errstate" where
  "seterr d i st = st\<lparr>err_divide := d, err_invalid := i\<rparr>"

text \<open>\<open>t[..., np.newaxis]\<close>: a new last axis of length one.\<close>

definition newaxis_last :: "'a ndarray \<Rightarrow> 'a ndarray" where
  "newaxis_last a = \<lparr>shape = shape a @ [1], item = (\<lambda>idx. item a (butlast idx))\<rparr>"

text \<open>The position of \<open>k\<close> in \<open>axes\<close> (the length of \<open>axes\<close> when it is absent).\<close>

fun position :: "nat list \<Rightarrow> nat \<Rightarrow> nat" where
  "position [] k = 0"
| "position (a # as) k = (if a = k then 0 else Suc (position as k))"

text \<open>
  \<open>np.transpose(a, axes)\<close>: axis \<open>i\<close> of the result is axis \<open>axes[i]\<close> of \<open>a\<close>.
  NumPy raises ValueError unless \<open>axes\<close> is a permutation of the axes of \<open>a\<close>.
\<close>

definition transpose_nd :: "'a ndarray \<Rightarrow> nat list \<Rightarrow> error + 'a ndarray" where
  "transpose_nd a axes =
     (let n = length (shape a) in
      if length axes \<noteq> n \<or> \<not> distinct axes \<or> \<not> list_all (\<lambda>k. k < n) axes then Inl ValueError
      else Inr \<lparr>shape = map (\<lambda>k. shape a ! k) axes,
                item = (\<lambda>idx. item a (map (\<lambda>k. idx ! position axes k) [0..<n]))\<rparr>)"

text \<open>
  The basic index \<open>t[:, :, :, p, q]\<close>: three full slices and two integers.  IndexError
  when \<open>t\<close> has fewer than five axes or an integer is out of bounds; axes after the
  fifth, if any, are kept.
\<close>

definition index_slices3 :: "'a ndarray \<Rightarrow> nat \<Rightarrow> nat \<Rightarrow> error + 'a ndarray" where
  "index_slices3 t p q =
     (if length (shape t) < 5 then Inl IndexError
      else if \<not> p < shape t ! 3 \<or> \<not> q < shape t ! 4 then Inl IndexError
      else Inr \<lparr>shape = take 3 (shape t) @ drop 5 (shape t),
                item = (\<lambda>idx. item t (take 3 idx @ [p, q] @ drop 3 idx))\<rparr>)"

text \<open>
  \<open>np.array\<close> of a nested list of equally shaped arrays: two new leading axes, the
  row and the column in the nested list.
\<close>

definition stack_rows :: "'a ndarray list list \<Rightarrow> 'a ndarray" where
  "stack_rows rows =
     \<lparr>shape = [length rows, length (hd rows)] @ shape (hd (hd rows)),
      item = (\<lambda>idx. item (rows ! (idx ! 0) ! (idx ! 1)) (drop 2 idx))\<rparr>"

text \<open>
  The array \<open>mt\<close> before its transposition: entry \<open>(r, c)\<close> of the matrix is the
  component \<open>t[:, :, :, 0, layout[r][c]]\<close>.
\<close>

definition component_matrix :: "'a ndarray \<Rightarrow> nat list list \<Rightarrow> error + 'a ndarray" where
  "component_matrix t layout =
     (case collect (map (\<lambda>row. collect (map (\<lambda>q. index_slices3 t 0 q) row)) layout) of
        Inl e \<Rightarrow> Inl e
      | Inr rows \<Rightarrow> Inr (stack_rows rows))"

text \<open>
  Lines 124 to 138: the branch on the rank of \<open>t\<close>, the nested list of components and
  the transposition that brings the two matrix axes last.
\<close>

definition tensor_matrices :: "'a ndarray \<Rightarrow> error + 'a ndarray" where
  "tensor_matrices t =
     (case (if length (shape t) = 4
            then (case transpose_nd (newaxis_last t) [1, 2, 3, 4, 0] of
                    Inl e \<Rightarrow> Inl e
                  | Inr t' \<Rightarrow> component_matrix t' [[0, 1, 2], [1, 3, 4], [2, 4, 5]])
            else component_matrix t [[0, 1, 3], [1, 2, 4], [3, 4, 5]]) of
        Inl e \<Rightarrow> Inl e
      | Inr mt \<Rightarrow> transpose_nd mt [2, 3, 4, 0, 1])"

text \<open>The 3 by 3 matrix stored at the leading index \<open>idx\<close> of an array of matrices.\<close>

definition matrix_at :: "'a ndarray \<Rightarrow> nat list \<Rightarrow> 'a list list" where
  "matrix_at mt idx = map (\<lambda>r. map (\<lambda>c. item mt (idx @ [r, c])) [0, 1, 2]) [0, 1, 2]"

text \<open>
  \<open>np.linalg.eig\<close> belongs to NumPy; the solver for one 3 by 3 matrix is a parameter.
  It returns the three eigenvalues in no particular order, or raises LinAlgError (on a
  matrix with a NaN or an infinity, or when the iteration does not converge).  The
  matrices built above are symmetric, so their eigenvalues are real: the solver's result
  is typed as three reals, and the \<open>.real\<close> at the end of \<open>tensor_to_DTI\<close> has nothing
  to discard.  The call on the whole array raises when the solver raises at any matrix.
\<close>

type_synonym eigensolver = "fl list list \<Rightarrow> error + real \<times> real \<times> real"

definition linalg_eig :: "eigensolver \<Rightarrow> fl ndarray \<Rightarrow> error + real ndarray" where
  "linalg_eig eig mt =
     (let lead = butlast (butlast (shape mt)) in
      case collect (map (\<lambda>idx. eig (matrix_at mt idx)) (ndindex lead)) of
        Inl e \<Rightarrow> Inl e
      | Inr _ \<Rightarrow>
          Inr \<lparr>shape = lead @ [3],
               item = (\<lambda>idx. case eig (matrix_at mt (butlast idx)) of
                                Inr (a, b, c) \<Rightarrow> [a, b, c] ! last idx
                              | Inl _ \<Rightarrow> 0)\<rparr>)"

text \<open>\<open>np.sort(a, axis=-1)\<close>: each vector along the last axis, sorted ascending.\<close>

definition sort_last :: "real ndarray \<Rightarrow> real ndarray" where
  "sort_last a =
     \<lparr>shape = shape a,
      item = (\<lambda>idx. sort (map (\<lambda>l. item a (butlast idx @ [l])) [0..<last (shape a)])
                       ! last idx)\<rparr>"

text \<open>Lines 139 to 142: \<open>val\<close> after \<open>val = -np.sort(-val, axis=-1)\<close>.\<close>

definition sorted_eigenvalues :: "eigensolver \<Rightarrow> fl ndarray \<Rightarrow> error + real ndarray" where
  "sorted_eigenvalues eig t =
     (case tensor_matrices t of
        Inl e \<Rightarrow> Inl e
      | Inr mt \<Rightarrow>
          (case linalg_eig eig mt of
             Inl e \<Rightarrow> Inl e
           | Inr val \<Rightarrow> Inr (map_array uminus (sort_last (map_array uminus val)))))"

text \<open>
  \<open>val[:, :, :, l]\<close>, for \<open>val\<close> of four axes whose last has length three and
  \<open>l < 3\<close>; it cannot raise there.
\<close>

definition eigen_component :: "real ndarray \<Rightarrow> nat \<Rightarrow> real ndarray" where
  "eigen_component val l =
     \<lparr>shape = take 3 (shape val), item = (\<lambda>idx. item val (idx @ [l]))\<rparr>"

text \<open>Combining three arrays of one shape item by item.\<close>

definition map_array3 ::
  "('a \<Rightarrow> 'a \<Rightarrow> 'a \<Rightarrow> 'b) \<Rightarrow> 'a ndarray \<Rightarrow> 'a ndarray \<Rightarrow> 'a ndarray \<Rightarrow> 'b ndarray" where
  "map_array3 f a b c =
     \<lparr>shape = shape a, item = (\<lambda>idx. f (item a idx) (item b idx) (item c idx))\<rparr>"

text \<open>The four formulas of lines 144 to 155, at one voxel.\<close>

definition FA_formula :: "real \<Rightarrow> real \<Rightarrow> real \<Rightarrow> fl" where
  "FA_formula v0 v1 v2 =
     fsqrt (fdiv (Fin ((v0 - v1)\<^sup>2 + (v1 - v2)\<^sup>2 + (v2 - v0)\<^sup>2))
                 (Fin (2 * (v0\<^sup>2 + v1\<^sup>2 + v2\<^sup>2))))"

definition MD_formula :: "real \<Rightarrow> real \<Rightarrow> real \<Rightarrow> fl" where
  "MD_formula v0 v1 v2 = fdiv (Fin (v0 + v1 + v2)) (Fin 3)"

definition AD_formula :: "real \<Rightarrow> real \<Rightarrow> real \<Rightarrow> fl" where
  "AD_formula v0 v1 v2 = Fin v0"

definition RD_formula :: "real \<Rightarrow> real \<Rightarrow> real \<Rightarrow> fl" where
  "RD_formula v0 v1 v2 = fdiv (Fin (v1 + v2)) (Fin 2)"

text \<open>\<open>m[np.isnan(m)] = 0\<close>.\<close>

definition nan_to_zero :: "fl ndarray \<Rightarrow> fl ndarray" where
  "nan_to_zero m = map_array (\<lambda>v. if isnan v then Fin 0 else v) m"

text \<open>
  Lines 124 to 163, the part of \<open>tensor_to_DTI\<close> between the two calls of
  \<open>np.seterr\<close>.  The result is \<open>(FA, AD, RD, MD)\<close>.
\<close>

definition tensor_maps ::
  "eigensolver \<Rightarrow> fl ndarray \<Rightarrow> error + fl ndarray \<times> fl ndarray \<times> fl ndarray \<times> fl ndarray" where
  "tensor_maps eig t =
     (case sorted_eigenvalues eig t of
        Inl e \<Rightarrow> Inl e
      | Inr val \<Rightarrow>
          (let v0 = eigen_component val 0;
               v1 = eigen_component val 1;
               v2 = eigen_component val 2;
               FA = map_array3 FA_formula v0 v1 v2;
               MD = map_array3 MD_formula v0 v1 v2;
               AD = map_array3 AD_formula v0 v1 v2;
               RD = map_array3 RD_formula v0 v1 v2
           in Inr (nan_to_zero FA, nan_to_zero AD, nan_to_zero RD, nan_to_zero MD)))"

text \<open>
  \<open>tensor_to_DTI\<close> with the process-wide error handling as explicit state: the first
  \<open>np.seterr\<close> runs before anything else; the second one is reached only when nothing
  in between has raised.
\<close>

definition tensor_to_DTI ::
  "eigensolver \<Rightarrow> fl ndarray \<Rightarrow> errstate \<Rightarrow>
   (error + fl ndarray \<times> fl ndarray \<times> fl ndarray \<times> fl ndarray) \<times> errstate" where
  "tensor_to_DTI eig t st =
     (let st1 = seterr Ignore Ignore st in
      case tensor_maps eig t of
        Inl e \<Rightarrow> (Inl e, st1)
      | Inr maps \<Rightarrow> (Inr maps, seterr Warn Warn st1))"

text \<open>
  Test data: an array filled with one value, and a solver for diagonal matrices of finite
  entries, whose eigenvalues are the diagonal entries; on any other matrix this solver
  reports failure.
\<close>

definition full :: "nat list \<Rightarrow> 'a \<Rightarrow> 'a ndarray" where
  "full sh v = \<lparr>shape = sh, item = (\<lambda>_. v)\<rparr>"

fun finite_value :: "fl \<Rightarrow> real option" where
  "finite_value (Fin a) = Some a"
| "finite_value _ = None"

definition diagonal_eig :: eigensolver where
  "diagonal_eig m =
     (if length m = 3 \<and> list_all (\<lambda>row. length row = 3) m \<and>
         list_all (\<lambda>(r, c). m ! r ! c = Fin 0)
           [(0, 1), (0, 2), (1, 0), (1, 2), (2, 0), (2, 1)]
      then (case (finite_value (m ! 0 ! 0), finite_value (m ! 1 ! 1), finite_value (m ! 2 ! 2)) of
              (Some a, Some b, Some c) \<Rightarrow> Inr (a, b, c)
            | _ \<Rightarrow> Inl LinAlgError)
      else Inl LinAlgError)"

text \<open>
  More test data: the field of one voxel with the given six components, in the layout
  \<open>(x, y, z, 1, 6)\<close> and in the layout with the component axis first.
\<close>

definition single_voxel :: "fl list \<Rightarrow> fl ndarray" where
  "single_voxel cs = \<lparr>shape = [1, 1, 1, 1, 6], item = (\<lambda>idx. cs ! last idx)\<rparr>"

definition component_first :: "fl list \<Rightarrow> fl ndarray" where
  "component_first cs = \<lparr>shape = [6, 1, 1, 1], item = (\<lambda>idx. cs ! hd idx)\<rparr>"

text \<open>The shapes of the four maps of a result.\<close>

definition result_shapes ::
  "error + fl ndarray \<times> fl ndarray \<times> fl ndarray \<times> fl ndarray \<Rightarrow> error + nat list list" where
  "result_shapes r = map_sum id (\<lambda>(FA, AD, RD, MD). [shape FA, shape AD, shape RD, shape MD]) r"


section \<open>Overlaying volumes (viz.py)\<close>

text \<open>
  \<open>overlap_volumes\<close> pops the caller's list and writes into arrays in place, so its model
  runs on an explicit store: the array objects by address, the next unused address, and
  the content of the list object \<open>vol_list\<close> (the addresses of its elements).
\<close>

record pystate =
  arrays :: "nat \<Rightarrow> fl ndarray"
  fresh :: nat
  vol_list :: "nat list"

text \<open>A new array object: it gets the next unused address.\<close>

definition alloc :: "fl ndarray \<Rightarrow> pystate \<Rightarrow> nat \<times> pystate" where
  "alloc a s = (fresh s, s\<lparr>arrays := (arrays s)(fresh s := a), fresh := Suc (fresh s)\<rparr>)"

text \<open>
  \<open>grayscale_to_rgb\<close>: \<open>np.repeat(array[..., np.newaxis], 3, axis=3)\<close>, a new array.
  AxisError when the array with its new axis has no axis 3.
\<close>

definition grayscale_to_rgb :: "'a ndarray \<Rightarrow> error + 'a ndarray" where
  "grayscale_to_rgb array =
     (let a1 = newaxis_last array in
      if length (shape a1) \<le> 3 then Inl AxisError
      else Inr \<lparr>shape = (shape a1)[3 := 3 * (shape a1 ! 3)],
                item = (\<lambda>idx. item a1 (idx[3 := idx ! 3 div 3]))\<rparr>)"

text \<open>
  The first loop, over the shapes of the volumes: \<open>x, y, z = vol.shape[:3]\<close> raises
  ValueError on fewer than three axes; the inner loop raises the entries of
  \<open>max_size\<close>.
\<close>

definition raise_max :: "nat list \<Rightarrow> nat list \<Rightarrow> nat list" where
  "raise_max max_size xyz =
     foldl (\<lambda>ms (axis, i). if i > ms ! axis then ms[axis := i] else ms) max_size
       (enumerate 0 xyz)"

fun max_size_loop :: "nat list \<Rightarrow> nat list list \<Rightarrow> error + nat list" where
  "max_size_loop max_size [] = Inr max_size"
| "max_size_loop max_size (sh # shs) =
     (if length sh < 3 then Inl ValueError
      else max_size_loop (raise_max max_size (take 3 sh)) shs)"

text \<open>
  \<open>[i / j for i, j in zip(max_size, size)]\<close>: true division of Python integers, which
  raises ZeroDivisionError on a zero divisor.
\<close>

definition zoom_factors :: "nat list \<Rightarrow> nat list \<Rightarrow> error + real list" where
  "zoom_factors max_size sz =
     (if list_ex (\<lambda>(i, j). j = 0) (zip max_size sz) then Inl ZeroDivisionError
      else Inr (map (\<lambda>(i, j). real i / real j) (zip max_size sz)))"

text \<open>
  \<open>scipy.ndimage.zoom\<close> is a parameter: from an array, the zoom factor of each axis and
  the spline order it makes a new array, or raises.
\<close>

type_synonym zoomfn = "fl ndarray \<Rightarrow> real list \<Rightarrow> int \<Rightarrow> error + fl ndarray"

text \<open>
  \<open>np.max\<close> of a whole array: ValueError on an array without items, NaN as soon as one
  item is NaN.
\<close>

definition array_items :: "'a ndarray \<Rightarrow> 'a list" where
  "array_items a = map (item a) (ndindex (shape a))"

definition np_max :: "fl ndarray \<Rightarrow> error + fl" where
  "np_max a = (case array_items a of [] \<Rightarrow> Inl ValueError | v # vs \<Rightarrow> Inr (foldl fmax v vs))"

text \<open>
  \<open>np.sum(layer, axis=3)\<close> at the voxel \<open>idx\<close> of a layer of four axes: the sum over
  the channel axis.
\<close>

definition channel_sum :: "fl ndarray \<Rightarrow> nat list \<Rightarrow> fl" where
  "channel_sum layer idx =
     foldl fadd (Fin 0) (map (\<lambda>c. item layer (idx @ [c])) [0..<shape layer ! 3])"

text \<open>
  \<open>back[np.sum(layer, axis=3) != 0] = layer[np.sum(layer, axis=3) != 0]\<close>, for
  \<open>back\<close> of four axes.
  \<^item> \<open>np.sum\<close> raises AxisError on a layer of fewer than four axes.
  \<^item> On a layer of four axes the mask has three; it has to match the first three axes
    of \<open>back\<close> (IndexError), and the selected rows of the layer have to broadcast to
    rows of \<open>back\<close>, so the layer has as many channels as \<open>back\<close> or one (ValueError).
  \<^item> On a layer of five axes the mask has four; it has to match the first four axes of
    the layer and all of \<open>back\<close> (IndexError), and then the rows selected from the
    layer cannot be assigned to the items selected from \<open>back\<close> (ValueError).
  \<^item> On more axes the mask has too many for \<open>back\<close> (IndexError).
  Where the mask holds, that is where the channel sum differs from zero (a NaN differs
  from zero), the voxel of \<open>back\<close> is overwritten.
\<close>

definition composite :: "fl ndarray \<Rightarrow> fl ndarray \<Rightarrow> error + fl ndarray" where
  "composite back layer =
     (let r = length (shape layer) in
      if r < 4 then Inl AxisError
      else if r > 5 then Inl IndexError
      else if r = 5 then
        (if shape layer ! 3 = shape layer ! 4 \<and>
            take 3 (shape layer) @ [shape layer ! 4] = shape back
         then Inl ValueError else Inl IndexError)
      else if take 3 (shape layer) \<noteq> take 3 (shape back) then Inl IndexError
      else if shape layer ! 3 \<noteq> shape back ! 3 \<and> shape layer ! 3 \<noteq> 1 then Inl ValueError
      else Inr \<lparr>shape = shape back,
                item = (\<lambda>idx. if channel_sum layer (take 3 idx) \<noteq> Fin 0
                               then item layer (take 3 idx @
                                      [if shape layer ! 3 = 1 then 0 else idx ! 3])
                               else item back idx)\<rparr>)"

text \<open>
  The body of the \<open>while\<close> loop after the \<open>pop\<close>, for the popped element at address
  \<open>layer\<close>.  \<open>grayscale_to_rgb\<close> and \<open>zoom\<close> make new arrays; the division by the
  maximum writes into the array that \<open>zoom\<close> made, and the last statement writes into
  \<open>back\<close>.  Items are floats, so the in-place division has no type to complain about.
\<close>

definition process_layer ::
  "zoomfn \<Rightarrow> int \<Rightarrow> nat list \<Rightarrow> nat \<Rightarrow> nat \<Rightarrow> pystate \<Rightarrow> (error + unit) \<times> pystate" where
  "process_layer zoom order max_size back layer s =
     (if shape (arrays s layer) = [] then (Inl IndexError, s)
      else
       (case (if last (shape (arrays s layer)) \<noteq> 3
              then (case grayscale_to_rgb (arrays s layer) of
                      Inl e \<Rightarrow> Inl e
                    | Inr g \<Rightarrow> Inr (alloc g s))
              else Inr (layer, s)) of
          Inl e \<Rightarrow> (Inl e, s)
        | Inr (a1, s1) \<Rightarrow>
           (case zoom_factors max_size (take 3 (shape (arrays s1 a1))) of
              Inl e \<Rightarrow> (Inl e, s1)
            | Inr fs \<Rightarrow>
               (case zoom (arrays s1 a1) (fs @ [1]) order of
                  Inl e \<Rightarrow> (Inl e, s1)
                | Inr zoomed \<Rightarrow>
                   (case alloc zoomed s1 of
                      (a2, s2) \<Rightarrow>
                       (case np_max (arrays s2 a2) of
                          Inl e \<Rightarrow> (Inl e, s2)
                        | Inr m \<Rightarrow>
                           (let s3 = s2\<lparr>arrays := (arrays s2)
                                        (a2 := map_array (\<lambda>v. fdiv v m) (arrays s2 a2))\<rparr>
                            in case composite (arrays s3 back) (arrays s3 a2) of
                                 Inl e \<Rightarrow> (Inl e, s3)
                               | Inr b \<Rightarrow>
                                  (Inr (), s3\<lparr>arrays := (arrays s3)(back := b)\<rparr>))))))))"

text \<open>The \<open>while len(vol_list) > 0\<close> loop: pop the last element, process it.\<close>

function overlap_loop ::
  "zoomfn \<Rightarrow> int \<Rightarrow> nat list \<Rightarrow> nat \<Rightarrow> pystate \<Rightarrow> (error + unit) \<times> pystate" where
  "overlap_loop zoom order max_size back s =
     (if length (vol_list s) > 0
      then (case process_layer zoom order max_size back (last (vol_list s))
                   (s\<lparr>vol_list := butlast (vol_list s)\<rparr>) of
              (Inl e, s') \<Rightarrow> (Inl e, s')
            | (Inr u, s') \<Rightarrow> overlap_loop zoom order max_size back s')
      else (Inr (), s))"
  by pat_completeness auto
termination
  apply (relation "measure (\<lambda>(zoom, order, max_size, bk, s). length (vol_list s))")
   apply simp
  apply (auto simp: process_layer_def alloc_def Let_def
      split: if_splits sum.splits prod.splits)
  done

text \<open>\<open>back[:, :, :, 0]\<close>, for \<open>back\<close> of four axes with a non-empty last one.\<close>

definition first_channel :: "'a ndarray \<Rightarrow> 'a ndarray" where
  "first_channel back = \<lparr>shape = take 3 (shape back), item = (\<lambda>idx. item back (idx @ [0]))\<rparr>"

text \<open>
  \<open>overlap_volumes\<close>.  The result is the address of the returned array: \<open>back\<close>
  itself, or a new array object for \<open>back[:, :, :, 0]\<close>.  When an error is raised the
  state is the one reached at that point.
\<close>

definition overlap_volumes :: "zoomfn \<Rightarrow> bool \<Rightarrow> int \<Rightarrow> pystate \<Rightarrow> (error + nat) \<times> pystate" where
  "overlap_volumes zoom rgb order s =
     (case max_size_loop [0, 0, 0] (map (\<lambda>a. shape (arrays s a)) (vol_list s)) of
        Inl e \<Rightarrow> (Inl e, s)
      | Inr max_size \<Rightarrow>
          (case alloc (full (max_size @ [3]) (Fin 0)) s of
             (back, s1) \<Rightarrow>
               (case overlap_loop zoom order max_size back s1 of
                  (Inl e, s2) \<Rightarrow> (Inl e, s2)
                | (Inr u, s2) \<Rightarrow>
                    if rgb then (Inr back, s2)
                    else (case alloc (first_channel (arrays s2 back)) s2 of
                            (v, s3) \<Rightarrow> (Inr v, s3)))))"

text \<open>
  A layer divided by its own maximum, as a value: what "self-max-normalized" means in
  the statements below.
\<close>

definition normalized :: "fl ndarray \<Rightarrow> error + fl ndarray" where
  "normalized a =
     (case np_max a of Inl e \<Rightarrow> Inl e | Inr m \<Rightarrow> Inr (map_array (\<lambda>v. fdiv v m) a))"

text \<open>
  What the statements below ask of \<open>zoom\<close> when every factor is one (source and target
  have the same size): a result of the same shape with the same items.
\<close>

definition keeps_same_size :: "zoomfn \<Rightarrow> int \<Rightarrow> bool" where
  "keeps_same_size zoom order =
     (\<forall>a fs. length fs = length (shape a) \<and> list_all (\<lambda>f. f = 1) fs \<longrightarrow>
        (\<exists>z. zoom a fs order = Inr z \<and> shape z = shape a \<and>
             (\<forall>idx. in_shape (shape a) idx \<longrightarrow> item z idx = item a idx)))"

text \<open>
  Test data: the state in which the list holds the given arrays in order, and a
  nearest-neighbour resampling that stands in for \<open>zoom\<close>.
\<close>

definition state_of :: "fl ndarray list \<Rightarrow> pystate" where
  "state_of vols =
     \<lparr>arrays = (\<lambda>a. if a < length vols then vols ! a else full [] (Fin 0)),
      fresh = length vols,
      vol_list = [0..<length vols]\<rparr>"

definition nearest_zoom :: zoomfn where
  "nearest_zoom a fs order =
     (if length fs \<noteq> length (shape a) then Inl RuntimeError
      else Inr \<lparr>shape = map (\<lambda>(n, f). nat (round (real n * f))) (zip (shape a) fs),
                item = (\<lambda>idx. item a (map (\<lambda>(i, f). nat \<lfloor>real i / f\<rfloor>) (zip idx fs)))\<rparr>)"

text \<open>An array of the given shape from its items in row-major order.\<close>

fun ravel :: "nat list \<Rightarrow> nat list \<Rightarrow> nat" where
  "ravel [] idx = 0"
| "ravel (n # ns) idx = hd idx * prod_list ns + ravel ns (tl idx)"

definition from_list :: "nat list \<Rightarrow> 'a list \<Rightarrow> 'a ndarray" where
  "from_list sh xs = \<lparr>shape = sh, item = (\<lambda>idx. xs ! ravel sh idx)\<rparr>"

text \<open>
  The layer that the loop body composites onto \<open>back\<close>, as a value: the popped array,
  made RGB if its last axis is not of length three and resampled (\<open>resampled_layer\<close>),
  then divided by its maximum (\<open>prepared_layer\<close>).
\<close>

definition resampled_layer :: "zoomfn \<Rightarrow> int \<Rightarrow> nat list \<Rightarrow> fl ndarray \<Rightarrow> error + fl ndarray" where
  "resampled_layer zoom order max_size a =
     (if shape a = [] then Inl IndexError
      else
       (case (if last (shape a) \<noteq> 3 then grayscale_to_rgb a else Inr a) of
          Inl e \<Rightarrow> Inl e
        | Inr l \<Rightarrow>
           (case zoom_factors max_size (take 3 (shape l)) of
              Inl e \<Rightarrow> Inl e
            | Inr fs \<Rightarrow> zoom l (fs @ [1]) order)))"

definition prepared_layer :: "zoomfn \<Rightarrow> int \<Rightarrow> nat list \<Rightarrow> fl ndarray \<Rightarrow> error + fl ndarray" where
  "prepared_layer zoom order max_size a =
     (case resampled_layer zoom order max_size a of
        Inl e \<Rightarrow> Inl e
      | Inr z \<Rightarrow> normalized z)"

text \<open>The value of the self-normalized array at one index.\<close>

definition normalized_at :: "fl ndarray \<Rightarrow> nat list \<Rightarrow> error + fl" where
  "normalized_at a idx = (case normalized a of Inl e \<Rightarrow> Inl e | Inr n \<Rightarrow> Inr (item n idx))"

section \<open>Properties of the alpha-coefficient surface\<close>

lemma in_shape_Nil [simp]: "in_shape [] idx \<longleftrightarrow> idx = []"
  by (auto simp: in_shape_def)

lemma in_shape_Cons:
  "in_shape (n # ns) idx \<longleftrightarrow> (\<exists>i rest. idx = i # rest \<and> i < n \<and> in_shape ns rest)"
  by (cases idx) (auto simp: in_shape_def)

lemma set_ndindex: "set (ndindex sh) = {idx. in_shape sh idx}"
proof (induction sh)
  case Nil
  show ?case by auto
next
  case (Cons n ns)
  show ?case
    by (auto simp: Cons.IH in_shape_Cons)
qed

lemma distinct_prefixed:
  "distinct L \<Longrightarrow> distinct js \<Longrightarrow> distinct (concat (map (\<lambda>i. map ((#) i) L) js))"
  by (induction js) (auto simp: distinct_map)

lemma distinct_ndindex: "distinct (ndindex sh)"
  by (induction sh) (simp_all add: distinct_prefixed)

lemma surface_loop_Inr:
  assumes "surface_loop k idxs (x, y, z, c) = Inr (x', y', z', c')" and "distinct idxs"
  shows "(\<forall>idx \<in> set idxs. \<exists>a. k [item x idx, item y idx, item z idx] = Inr a
            \<and> item x' idx = fmul (item x idx) (fadd a (Fin 1))
            \<and> item y' idx = fmul (item y idx) (fadd a (Fin 1))
            \<and> item z' idx = fmul (item z idx) (fadd a (Fin 1))
            \<and> item c' idx = a)
       \<and> (\<forall>idx. idx \<notin> set idxs \<longrightarrow> item x' idx = item x idx \<and> item y' idx = item y idx
            \<and> item z' idx = item z idx \<and> item c' idx = item c idx)
       \<and> shape x' = shape x \<and> shape y' = shape y \<and> shape z' = shape z \<and> shape c' = shape c"
  using assms
proof (induction idxs arbitrary: x y z c)
  case Nil
  then show ?case by simp
next
  case (Cons xyz rest)
  from Cons.prems(1) obtain a where a: "k [item x xyz, item y xyz, item z xyz] = Inr a"
    by (auto split: sum.splits)
  let ?x = "set_item x xyz (fmul (item x xyz) (fadd a (Fin 1)))"
  let ?y = "set_item y xyz (fmul (item y xyz) (fadd a (Fin 1)))"
  let ?z = "set_item z xyz (fmul (item z xyz) (fadd a (Fin 1)))"
  let ?c = "set_item c xyz a"
  from Cons.prems(1) a have run: "surface_loop k rest (?x, ?y, ?z, ?c) = Inr (x', y', z', c')"
    by simp
  from Cons.prems(2) have d: "distinct rest" and notin: "xyz \<notin> set rest" by auto
  note IH = Cons.IH[OF run d]
  have unchanged: "idx \<noteq> xyz \<Longrightarrow> item ?x idx = item x idx \<and> item ?y idx = item y idx
      \<and> item ?z idx = item z idx \<and> item ?c idx = item c idx" for idx
    by (simp add: set_item_def)
  have at: "item ?x xyz = fmul (item x xyz) (fadd a (Fin 1))"
    "item ?y xyz = fmul (item y xyz) (fadd a (Fin 1))"
    "item ?z xyz = fmul (item z xyz) (fadd a (Fin 1))"
    "item ?c xyz = a"
    by (simp_all add: set_item_def)
  have sh: "shape ?x = shape x" "shape ?y = shape y" "shape ?z = shape z" "shape ?c = shape c"
    by (simp_all add: set_item_def)
  show ?case
  proof (intro conjI ballI allI impI)
    fix idx assume "idx \<in> set (xyz # rest)"
    then consider "idx = xyz" | "idx \<in> set rest" "idx \<noteq> xyz" using notin by auto
    then show "\<exists>a. k [item x idx, item y idx, item z idx] = Inr a
            \<and> item x' idx = fmul (item x idx) (fadd a (Fin 1))
            \<and> item y' idx = fmul (item y idx) (fadd a (Fin 1))
            \<and> item z' idx = fmul (item z idx) (fadd a (Fin 1))
            \<and> item c' idx = a"
    proof cases
      case 1
      with IH notin a at show ?thesis by auto
    next
      case 2
      with IH unchanged[of idx] show ?thesis by auto
    qed
  next
    fix idx assume "idx \<notin> set (xyz # rest)"
    then have "idx \<notin> set rest" "idx \<noteq> xyz" by auto
    with IH unchanged[of idx]
    show "item x' idx = item x idx" "item y' idx = item y idx"
      "item z' idx = item z idx" "item c' idx = item c idx" by auto
  qed (use IH sh in auto)
qed

lemma surface_loop_Inl:
  assumes "surface_loop k idxs (x, y, z, c) = Inl e" and "distinct idxs"
  shows "\<exists>idx \<in> set idxs. k [item x idx, item y idx, item z idx] = Inl e"
  using assms
proof (induction idxs arbitrary: x y z c)
  case Nil
  then show ?case by simp
next
  case (Cons xyz rest)
  show ?case
  proof (cases "k [item x xyz, item y xyz, item z xyz]")
    case (Inl e')
    with Cons.prems(1) show ?thesis by auto
  next
    case (Inr a)
    let ?x = "set_item x xyz (fmul (item x xyz) (fadd a (Fin 1)))"
    let ?y = "set_item y xyz (fmul (item y xyz) (fadd a (Fin 1)))"
    let ?z = "set_item z xyz (fmul (item z xyz) (fadd a (Fin 1)))"
    let ?c = "set_item c xyz a"
    from Cons.prems(1) Inr have run: "surface_loop k rest (?x, ?y, ?z, ?c) = Inl e" by simp
    from Cons.prems(2) have d: "distinct rest" and notin: "xyz \<notin> set rest" by auto
    from Cons.IH[OF run d] obtain idx where idx: "idx \<in> set rest"
      and k: "k [item ?x idx, item ?y idx, item ?z idx] = Inl e" by blast
    from idx notin have "idx \<noteq> xyz" by auto
    then have "item ?x idx = item x idx" "item ?y idx = item y idx" "item ?z idx = item z idx"
      by (simp_all add: set_item_def)
    with k idx show ?thesis by auto
  qed
qed


lemma grid_items:
  "item (outer (map_array fcos grid_u) (map_array fsin grid_v)) [i, j]
     = Fin (cos (u_angle i) * sin (v_angle j))"
  "item (outer (map_array fsin grid_u) (map_array fsin grid_v)) [i, j]
     = Fin (sin (u_angle i) * sin (v_angle j))"
  "item (outer (ones (shape grid_u)) (map_array fcos grid_v)) [i, j]
     = Fin (cos (v_angle j))"
  by (simp_all add: outer_def map_array_def grid_u_def grid_v_def linspace_def ones_def
      u_angle_def v_angle_def)

lemma grid_shapes:
  "shape (outer (map_array fcos grid_u) (map_array fsin grid_v)) = [200, 200]"
  "shape (outer (map_array fsin grid_u) (map_array fsin grid_v)) = [200, 200]"
  "shape (outer (ones (shape grid_u)) (map_array fcos grid_v)) = [200, 200]"
  by (simp_all add: outer_def map_array_def grid_u_def grid_v_def linspace_def ones_def)

lemma in_grid: "in_shape [200, 200] idx \<longleftrightarrow> (\<exists>i j. idx = [i, j] \<and> i < 200 \<and> j < 200)"
  by (auto simp: in_shape_Cons)

lemma surface_result:
  fixes raw :: "('v, 'r1) kernel" and cfo :: "('v, 'r2) kernel" and ang :: "('v, 'r3) kernel"
  shows "case compute_alpha_surface raw cfo ang vList meth of
       Inl e \<Rightarrow>
         \<exists>i j. i < 200 \<and> j < 200 \<and>
           alpha_coef raw cfo ang meth (sphere_point i j) vList
             (replicate (length vList) 0) = Inl e
     | Inr (x, y, z, coef) \<Rightarrow>
         shape x = [200, 200] \<and> shape y = [200, 200] \<and> shape z = [200, 200] \<and>
         shape coef = [200, 200] \<and>
         (\<forall>i j. i < 200 \<and> j < 200 \<longrightarrow>
           alpha_coef raw cfo ang meth (sphere_point i j) vList
             (replicate (length vList) 0) = Inr (item coef [i, j]) \<and>
           item x [i, j] = fmul (Fin (cos (u_angle i) * sin (v_angle j)))
                             (fadd (item coef [i, j]) (Fin 1)) \<and>
           item y [i, j] = fmul (Fin (sin (u_angle i) * sin (v_angle j)))
                             (fadd (item coef [i, j]) (Fin 1)) \<and>
           item z [i, j] = fmul (Fin (cos (v_angle j)))
                             (fadd (item coef [i, j]) (Fin 1)))"
proof -
  let ?k = "\<lambda>d. alpha_coef raw cfo ang meth d vList (replicate (length vList) 0)"
  let ?x = "outer (map_array fcos grid_u) (map_array fsin grid_v)"
  let ?y = "outer (map_array fsin grid_u) (map_array fsin grid_v)"
  let ?z = "outer (ones (shape grid_u)) (map_array fcos grid_v)"
  have run: "compute_alpha_surface raw cfo ang vList meth
      = surface_loop ?k (ndindex [200, 200]) (?x, ?y, ?z, ?x)"
    by (simp add: compute_alpha_surface_def Let_def grid_shapes)
  have setidx: "set (ndindex [200, 200]) = {idx. \<exists>i j. idx = [i, j] \<and> i < 200 \<and> j < 200}"
    by (simp only: set_ndindex in_grid)
  show ?thesis
  proof (cases "compute_alpha_surface raw cfo ang vList meth")
    case (Inl e)
    with run have "surface_loop ?k (ndindex [200, 200]) (?x, ?y, ?z, ?x) = Inl e" by simp
    from surface_loop_Inl[OF this distinct_ndindex]
    obtain idx where "idx \<in> set (ndindex [200, 200])"
      and "?k [item ?x idx, item ?y idx, item ?z idx] = Inl e" by blast
    then obtain i j where "i < 200" "j < 200" "?k (sphere_point i j) = Inl e"
      unfolding setidx by (auto simp: grid_items sphere_point_def)
    with Inl show ?thesis by auto
  next
    case (Inr m)
    obtain x y z coef where m: "m = (x, y, z, coef)" by (cases m) auto
    from run Inr m have "surface_loop ?k (ndindex [200, 200]) (?x, ?y, ?z, ?x)
       = Inr (x, y, z, coef)" by simp
    note L = surface_loop_Inr[OF this distinct_ndindex]
    have pt: "alpha_coef raw cfo ang meth (sphere_point i j) vList
             (replicate (length vList) 0) = Inr (item coef [i, j]) \<and>
           item x [i, j] = fmul (Fin (cos (u_angle i) * sin (v_angle j)))
                             (fadd (item coef [i, j]) (Fin 1)) \<and>
           item y [i, j] = fmul (Fin (sin (u_angle i) * sin (v_angle j)))
                             (fadd (item coef [i, j]) (Fin 1)) \<and>
           item z [i, j] = fmul (Fin (cos (v_angle j)))
                             (fadd (item coef [i, j]) (Fin 1))"
      if "i < 200" "j < 200" for i j
    proof -
      from that have "[i, j] \<in> set (ndindex [200, 200])" unfolding setidx by blast
      with L obtain a where "?k [item ?x [i, j], item ?y [i, j], item ?z [i, j]] = Inr a"
        "item x [i, j] = fmul (item ?x [i, j]) (fadd a (Fin 1))"
        "item y [i, j] = fmul (item ?y [i, j]) (fadd a (Fin 1))"
        "item z [i, j] = fmul (item ?z [i, j]) (fadd a (Fin 1))"
        "item coef [i, j] = a" by blast
      then show ?thesis by (simp add: grid_items sphere_point_def)
    qed
    from L have "shape x = [200, 200]" "shape y = [200, 200]" "shape z = [200, 200]"
      "shape coef = [200, 200]" by (simp_all add: grid_shapes)
    with pt Inr m show ?thesis by simp
  qed
qed

text \<open>
  C3: for every \<open>vList\<close> and every method string other than \<open>raw\<close> and \<open>cfo\<close>
  (so also \<open>ang\<close>, \<open>vol\<close> and any unknown name), \<open>compute_alpha_surface\<close> gives exactly
  the result of the plain angular-weighting kernel, and the method name raises nothing: the
  call returns whenever that kernel returns at every grid direction.  Method \<open>raw\<close> gives
  the result of \<open>relative_angular_weighting\<close>, method \<open>cfo\<close> that of
  \<open>closest_fixel_only\<close>.
\<close>

theorem compute_alpha_surface_dispatch:
  fixes raw :: "('v, 'r1) kernel" and cfo :: "('v, 'r2) kernel" and ang :: "('v, 'r3) kernel"
  shows "(meth \<noteq> ''raw'' \<and> meth \<noteq> ''cfo'' \<longrightarrow>
            compute_alpha_surface raw cfo ang vList meth = surface_with ang vList \<and>
            ((\<forall>i<200. \<forall>j<200. \<exists>r. ang (sphere_point i j) vList (replicate (length vList) 0) = Inr r)
               \<longrightarrow> (\<exists>m. compute_alpha_surface raw cfo ang vList meth = Inr m)))
       \<and> compute_alpha_surface raw cfo ang vList ''raw'' = surface_with raw vList
       \<and> compute_alpha_surface raw cfo ang vList ''cfo'' = surface_with cfo vList"
proof (intro conjI impI)
  assume m: "meth \<noteq> ''raw'' \<and> meth \<noteq> ''cfo''"
  then show "compute_alpha_surface raw cfo ang vList meth = surface_with ang vList"
    by (simp add: surface_with_def compute_alpha_surface_def alpha_coef_def)
  assume ok: "\<forall>i<200. \<forall>j<200. \<exists>r. ang (sphere_point i j) vList (replicate (length vList) 0) = Inr r"
  show "\<exists>m. compute_alpha_surface raw cfo ang vList meth = Inr m"
  proof (cases "compute_alpha_surface raw cfo ang vList meth")
    case (Inl e)
    with surface_result[where raw=raw and cfo=cfo and ang=ang and vList=vList and meth=meth]
    obtain i j where "i < 200" "j < 200"
      "alpha_coef raw cfo ang meth (sphere_point i j) vList (replicate (length vList) 0) = Inl e"
      by auto
    moreover from ok \<open>i < 200\<close> \<open>j < 200\<close> obtain r
      where "ang (sphere_point i j) vList (replicate (length vList) 0) = Inr r" by blast
    ultimately show ?thesis using m by (simp add: alpha_coef_def)
  qed blast
next
  show "compute_alpha_surface raw cfo ang vList ''raw'' = surface_with raw vList"
    by (simp add: surface_with_def compute_alpha_surface_def alpha_coef_def)
  show "compute_alpha_surface raw cfo ang vList ''cfo'' = surface_with cfo vList"
    by (simp add: surface_with_def compute_alpha_surface_def alpha_coef_def)
qed

text \<open>
  C4: at every index \<open>(i, j)\<close> of the 200 by 200 grid, the returned mesh coordinates are
  the point \<open>(cos u\<^sub>i sin v\<^sub>j, sin u\<^sub>i sin v\<^sub>j, cos v\<^sub>j)\<close> of the unit sphere, each
  multiplied by \<open>coef[i, j] + 1\<close>, where \<open>coef[i, j]\<close> is the first value the selected
  kernel returns for that unscaled point, \<open>vList\<close> and \<open>nList\<close>.  When the call
  raises, it is an error the kernel raised at some grid point.
\<close>

theorem compute_alpha_surface_mesh:
  fixes raw :: "('v, 'r1) kernel" and cfo :: "('v, 'r2) kernel" and ang :: "('v, 'r3) kernel"
  assumes "i < 200" and "j < 200"
  shows "case compute_alpha_surface raw cfo ang vList meth of
       Inl e \<Rightarrow>
         \<exists>i j. i < 200 \<and> j < 200 \<and>
           alpha_coef raw cfo ang meth (sphere_point i j) vList
             (replicate (length vList) 0) = Inl e
     | Inr (x, y, z, coef) \<Rightarrow>
         alpha_coef raw cfo ang meth (sphere_point i j) vList
             (replicate (length vList) 0) = Inr (item coef [i, j]) \<and>
         item x [i, j] = fmul (Fin (cos (u_angle i) * sin (v_angle j)))
                             (fadd (item coef [i, j]) (Fin 1)) \<and>
         item y [i, j] = fmul (Fin (sin (u_angle i) * sin (v_angle j)))
                             (fadd (item coef [i, j]) (Fin 1)) \<and>
         item z [i, j] = fmul (Fin (cos (v_angle j)))
                             (fadd (item coef [i, j]) (Fin 1))"
  using surface_result[where raw=raw and cfo=cfo and ang=ang and vList=vList and meth=meth] assms
  by (auto split: sum.splits)


theorem compute_alpha_surface_dispatch_witness:
  "''vol'' \<noteq> ''raw'' \<and> ''vol'' \<noteq> ''cfo'' \<and>
   compute_alpha_surface (\<lambda>d vl nl. Inr (Fin 1, True)) (\<lambda>d vl nl. Inl ValueError :: error + fl \<times> nat)
       (\<lambda>d vl nl. Inr (d ! 2, ())) [[1, 0, 0 :: real]] ''vol''
     = surface_with (\<lambda>d vl nl. Inr (d ! 2, ())) [[1, 0, 0 :: real]] \<and>
   (\<exists>m. compute_alpha_surface (\<lambda>d vl nl. Inr (Fin 1, True)) (\<lambda>d vl nl. Inl ValueError :: error + fl \<times> nat)
       (\<lambda>d vl nl. Inr (d ! 2, ())) [[1, 0, 0 :: real]] ''vol'' = Inr m)"
proof -
  let ?raw = "\<lambda>(d :: fl list) (vl :: real list list) (nl :: int list).
                (Inr (Fin 1, True) :: error + fl \<times> bool)"
  let ?cfo = "\<lambda>(d :: fl list) (vl :: real list list) (nl :: int list).
                (Inl ValueError :: error + fl \<times> nat)"
  let ?ang = "\<lambda>(d :: fl list) (vl :: real list list) (nl :: int list).
                (Inr (d ! 2, ()) :: error + fl \<times> unit)"
  let ?vs = "[[1, 0, 0 :: real]]"
  have ne: "''vol'' \<noteq> ''raw'' \<and> ''vol'' \<noteq> ''cfo''" by simp
  have ok: "\<forall>i<200. \<forall>j<200. \<exists>r. ?ang (sphere_point i j) ?vs (replicate (length ?vs) 0) = Inr r"
    by simp
  from compute_alpha_surface_dispatch[where meth = "''vol''" and raw = ?raw and cfo = ?cfo
      and ang = ?ang and vList = ?vs] ne
  have A: "compute_alpha_surface ?raw ?cfo ?ang ?vs ''vol'' = surface_with ?ang ?vs"
    and B: "(\<forall>i<200. \<forall>j<200. \<exists>r. ?ang (sphere_point i j) ?vs (replicate (length ?vs) 0) = Inr r)
       \<longrightarrow> (\<exists>m. compute_alpha_surface ?raw ?cfo ?ang ?vs ''vol'' = Inr m)"
    by blast+
  from B ok have C: "\<exists>m. compute_alpha_surface ?raw ?cfo ?ang ?vs ''vol'' = Inr m" by (rule mp)
  show ?thesis
    by (intro conjI) (rule ne[THEN conjunct1], rule ne[THEN conjunct2], rule A, rule C)
qed

theorem compute_alpha_surface_mesh_witness:
  "(0::nat) < 200 \<and> (0::nat) < 200 \<and>
   (\<exists>x y z coef.
      compute_alpha_surface (\<lambda>d vl nl. Inr (d ! 2, ())) (\<lambda>d vl nl. Inr (d ! 2, ()))
        (\<lambda>d vl nl. Inr (d ! 2, ())) [[1, 0, 0 :: real]] ''raw'' = Inr (x, y, z, coef) \<and>
      item coef [0, 0] = Fin 1 \<and> item x [0, 0] = Fin 0 \<and> item y [0, 0] = Fin 0 \<and>
      item z [0, 0] = Fin 2)"
proof -
  let ?K = "\<lambda>(d :: fl list) (vl :: real list list) (nl :: int list). (Inr (d ! 2, ()) :: error + fl \<times> unit)"
  have T: "case compute_alpha_surface ?K ?K ?K [[1, 0, 0 :: real]] ''raw'' of
       Inl e \<Rightarrow>
         \<exists>i j. i < 200 \<and> j < 200 \<and>
           alpha_coef ?K ?K ?K ''raw'' (sphere_point i j) [[1, 0, 0 :: real]]
             (replicate (length [[1, 0, 0 :: real]]) 0) = Inl e
     | Inr (x, y, z, coef) \<Rightarrow>
         alpha_coef ?K ?K ?K ''raw'' (sphere_point 0 0) [[1, 0, 0 :: real]]
             (replicate (length [[1, 0, 0 :: real]]) 0) = Inr (item coef [0, 0]) \<and>
         item x [0, 0] = fmul (Fin (cos (u_angle 0) * sin (v_angle 0)))
                             (fadd (item coef [0, 0]) (Fin 1)) \<and>
         item y [0, 0] = fmul (Fin (sin (u_angle 0) * sin (v_angle 0)))
                             (fadd (item coef [0, 0]) (Fin 1)) \<and>
         item z [0, 0] = fmul (Fin (cos (v_angle 0)))
                             (fadd (item coef [0, 0]) (Fin 1))"
    by (rule compute_alpha_surface_mesh) simp_all
  show ?thesis
  proof (cases "compute_alpha_surface ?K ?K ?K [[1, 0, 0 :: real]] ''raw''")
    case (Inl e)
    with T show ?thesis by (simp add: alpha_coef_def)
  next
    case (Inr m)
    obtain x y z coef where m: "m = (x, y, z, coef)" by (cases m) auto
    from T Inr m have c: "Inr (Fin 1) = (Inr (item coef [0, 0]) :: error + fl)"
      and rest: "item x [0, 0] = fmul (Fin 0) (fadd (item coef [0, 0]) (Fin 1))"
        "item y [0, 0] = fmul (Fin 0) (fadd (item coef [0, 0]) (Fin 1))"
        "item z [0, 0] = fmul (Fin 1) (fadd (item coef [0, 0]) (Fin 1))"
      by (simp_all add: alpha_coef_def sphere_point_def u_angle_def v_angle_def)
    from c have "item coef [0, 0] = Fin 1" by simp
    with rest Inr m show ?thesis by simp
  qed
qed

section \<open>Properties of the tensor maps\<close>

lemma upt5: "[0..<5] = [0, 1, 2, 3, 4]"
  by (simp add: upt_rec)

lemma in_shape3: "in_shape [x, y, z] idx \<longleftrightarrow> (\<exists>i j k. idx = [i, j, k] \<and> i < x \<and> j < y \<and> k < z)"
  by (auto simp: in_shape_Cons)

lemma collect_Inr_iff:
  "(\<exists>vs. collect xs = Inr vs) \<longleftrightarrow> (\<forall>x \<in> set xs. \<exists>v. x = Inr v)"
  by (induction xs) (auto split: sum.splits)

lemma collect_Inl: "collect xs = Inl e \<Longrightarrow> Inl e \<in> set xs"
  by (induction xs) (auto split: sum.splits)

lemma tensor_matrices_rank4:
  assumes sh: "shape t = [n, x, y, z]" and n: "6 \<le> n"
  shows "\<exists>mt. tensor_matrices t = Inr mt \<and> shape mt = [x, y, z, 3, 3] \<and>
     (\<forall>i j k. matrix_at mt [i, j, k] =
        [[item t [0, i, j, k], item t [1, i, j, k], item t [2, i, j, k]],
         [item t [1, i, j, k], item t [3, i, j, k], item t [4, i, j, k]],
         [item t [2, i, j, k], item t [4, i, j, k], item t [5, i, j, k]]])"
  using n
  by (simp add: tensor_matrices_def transpose_nd_def newaxis_last_def sh Let_def
      component_matrix_def index_slices3_def stack_rows_def matrix_at_def upt5)

lemma tensor_matrices_rank5:
  assumes sh: "shape t = [x, y, z, c, n]" and c: "1 \<le> c" and n: "6 \<le> n"
  shows "\<exists>mt. tensor_matrices t = Inr mt \<and> shape mt = [x, y, z, 3, 3] \<and>
     (\<forall>i j k. matrix_at mt [i, j, k] =
        [[item t [i, j, k, 0, 0], item t [i, j, k, 0, 1], item t [i, j, k, 0, 3]],
         [item t [i, j, k, 0, 1], item t [i, j, k, 0, 2], item t [i, j, k, 0, 4]],
         [item t [i, j, k, 0, 3], item t [i, j, k, 0, 4], item t [i, j, k, 0, 5]]])"
  using n c
  by (simp add: tensor_matrices_def transpose_nd_def newaxis_last_def sh Let_def
      component_matrix_def index_slices3_def stack_rows_def matrix_at_def upt5)

lemma linalg_eig_Inr:
  assumes "\<And>idx. in_shape lead idx \<Longrightarrow> eig (matrix_at mt idx) = Inr (f idx)"
    and "shape mt = lead @ [3, 3]"
  shows "\<exists>val. linalg_eig eig mt = Inr val \<and> shape val = lead @ [3] \<and>
     (\<forall>idx l. in_shape lead idx \<longrightarrow>
        item val (idx @ [l]) = (case f idx of (a, b, c) \<Rightarrow> [a, b, c] ! l))"
proof -
  have lead: "butlast (butlast (shape mt)) = lead"
    using assms(2) by (simp add: butlast_append)
  have "\<forall>r \<in> set (map (\<lambda>idx. eig (matrix_at mt idx)) (ndindex lead)). \<exists>v. r = Inr v"
  proof
    fix r assume "r \<in> set (map (\<lambda>idx. eig (matrix_at mt idx)) (ndindex lead))"
    then obtain idx where "in_shape lead idx" "r = eig (matrix_at mt idx)"
      by (auto simp: set_ndindex)
    with assms(1)[of idx] show "\<exists>v. r = Inr v" by blast
  qed
  then obtain vs where "collect (map (\<lambda>idx. eig (matrix_at mt idx)) (ndindex lead)) = Inr vs"
    using collect_Inr_iff by blast
  then show ?thesis
    using assms(1) by (auto simp: linalg_eig_def lead Let_def split: prod.splits)
qed

lemma linalg_eig_shape:
  assumes "linalg_eig eig mt = Inr val"
  shows "shape val = butlast (butlast (shape mt)) @ [3]"
  using assms by (auto simp: linalg_eig_def Let_def split: sum.splits)

lemma collect_map_Inr:
  "collect (map f xs) = Inr vs \<Longrightarrow> x \<in> set xs \<Longrightarrow> \<exists>v. f x = Inr v"
proof (induction xs arbitrary: vs)
  case Nil
  then show ?case by simp
next
  case (Cons y ys)
  from Cons.prems(1) obtain w ws where w: "f y = Inr w" and ws: "collect (map f ys) = Inr ws"
    by (auto split: sum.splits)
  from Cons.prems(2) consider "x = y" | "x \<in> set ys" by auto
  then show ?case
  proof cases
    case 1
    with w show ?thesis by blast
  next
    case 2
    from Cons.IH[OF ws 2] show ?thesis .
  qed
qed

lemma linalg_eig_unfold:
  assumes "linalg_eig eig mt = Inr val"
  shows "\<exists>vs. collect (map (\<lambda>idx. eig (matrix_at mt idx))
                 (ndindex (butlast (butlast (shape mt))))) = Inr vs"
    and "val = \<lparr>shape = butlast (butlast (shape mt)) @ [3],
       item = (\<lambda>idx. case eig (matrix_at mt (butlast idx)) of
                        Inr (a, b, c) \<Rightarrow> [a, b, c] ! last idx
                      | Inl _ \<Rightarrow> 0)\<rparr>"
proof -
  show "\<exists>vs. collect (map (\<lambda>idx. eig (matrix_at mt idx))
                 (ndindex (butlast (butlast (shape mt))))) = Inr vs"
  proof (cases "collect (map (\<lambda>idx. eig (matrix_at mt idx))
                 (ndindex (butlast (butlast (shape mt)))))")
    case (Inl e)
    with assms show ?thesis by (simp add: linalg_eig_def Let_def)
  next
    case (Inr vs)
    then show ?thesis by blast
  qed
  then obtain vs where "collect (map (\<lambda>idx. eig (matrix_at mt idx))
                 (ndindex (butlast (butlast (shape mt))))) = Inr vs" by blast
  with assms show "val = \<lparr>shape = butlast (butlast (shape mt)) @ [3],
       item = (\<lambda>idx. case eig (matrix_at mt (butlast idx)) of
                        Inr (a, b, c) \<Rightarrow> [a, b, c] ! last idx
                      | Inl _ \<Rightarrow> 0)\<rparr>"
    by (simp add: linalg_eig_def Let_def)
qed

lemma linalg_eig_item:
  assumes "linalg_eig eig mt = Inr val" and "in_shape (butlast (butlast (shape mt))) idx"
  shows "\<exists>a b c. eig (matrix_at mt idx) = Inr (a, b, c) \<and>
     item val (idx @ [0]) = a \<and> item val (idx @ [1]) = b \<and> item val (idx @ [2]) = c"
proof -
  let ?lead = "butlast (butlast (shape mt))"
  from linalg_eig_unfold[OF assms(1)] obtain vs where
    c: "collect (map (\<lambda>idx. eig (matrix_at mt idx)) (ndindex ?lead)) = Inr vs"
    and val: "val = \<lparr>shape = ?lead @ [3],
       item = (\<lambda>idx. case eig (matrix_at mt (butlast idx)) of
                        Inr (a, b, c) \<Rightarrow> [a, b, c] ! last idx
                      | Inl _ \<Rightarrow> 0)\<rparr>"
    by blast
  from assms(2) have mem: "idx \<in> set (ndindex ?lead)"
    by (simp add: set_ndindex)
  from collect_map_Inr[OF c mem] obtain v where v: "eig (matrix_at mt idx) = Inr v" by blast
  obtain a b c where abc: "v = (a, b, c)" by (cases v) auto
  have "item val (idx @ [l]) = [a, b, c] ! l" for l
    by (simp add: val v abc)
  from this[of 0] this[of 1] this[of 2] v abc show ?thesis by simp
qed

lemma linalg_eig_Inl:
  assumes "linalg_eig eig mt = Inl e"
  shows "\<exists>idx. in_shape (butlast (butlast (shape mt))) idx \<and> eig (matrix_at mt idx) = Inl e"
proof -
  from assms have
    "collect (map (\<lambda>idx. eig (matrix_at mt idx)) (ndindex (butlast (butlast (shape mt))))) = Inl e"
    by (auto simp: linalg_eig_def Let_def split: sum.splits)
  from collect_Inl[OF this] show ?thesis
    by (auto simp: set_ndindex)
qed

lemma sort3:
  fixes p q r :: real
  shows "sort [p, q, r] ! 0 = min p (min q r)"
    and "sort [p, q, r] ! 2 = max p (max q r)"
    and "sort [p, q, r] ! 0 + sort [p, q, r] ! 1 + sort [p, q, r] ! 2 = p + q + r"
    and "sort [p, q, r] ! 0 \<le> sort [p, q, r] ! 1"
    and "sort [p, q, r] ! 1 \<le> sort [p, q, r] ! 2"
  by (simp_all add: min_def max_def)

lemma tensor_matrices_rank4_short:
  assumes sh: "shape t = [n, x, y, z]" and n: "n < 6"
  shows "tensor_matrices t = Inl IndexError"
proof -
  from n consider "n = 0" | "n = 1" | "n = 2" | "n = 3" | "n = 4" | "n = 5" by linarith
  then show ?thesis
    by cases (simp_all add: tensor_matrices_def transpose_nd_def newaxis_last_def sh Let_def
      component_matrix_def index_slices3_def upt5)
qed

lemma transpose_nd_shape:
  "transpose_nd a axes = Inr b \<Longrightarrow> length (shape b) = length axes"
  by (auto simp: transpose_nd_def Let_def split: if_splits)

lemma tensor_matrices_rank:
  assumes "tensor_matrices t = Inr mt"
  shows "length (shape mt) = 5"
proof -
  from assms obtain mt0 where "transpose_nd mt0 [2, 3, 4, 0, 1] = Inr mt"
    unfolding tensor_matrices_def by (auto split: sum.splits)
  from transpose_nd_shape[OF this] show ?thesis by simp
qed

lemma sorted_item:
  assumes "last (shape v) = 3"
  shows "item (map_array uminus (sort_last (map_array uminus v))) (idx @ [l])
     = - (sort [- item v (idx @ [0]), - item v (idx @ [1]), - item v (idx @ [2])] ! l)"
proof -
  have "[0..<3] = [0, 1, 2]" by (simp add: upt_rec)
  then show ?thesis
    using assms by (simp add: map_array_def sort_last_def)
qed

lemma sorted_eigenvalues_unfold:
  assumes "sorted_eigenvalues eig t = Inr val"
  shows "\<exists>mt v. tensor_matrices t = Inr mt \<and> linalg_eig eig mt = Inr v \<and>
           val = map_array uminus (sort_last (map_array uminus v))"
proof (cases "tensor_matrices t")
  case (Inl e)
  with assms show ?thesis by (simp add: sorted_eigenvalues_def)
next
  case mt: (Inr mt)
  show ?thesis
  proof (cases "linalg_eig eig mt")
    case (Inl e)
    with assms mt show ?thesis by (simp add: sorted_eigenvalues_def)
  next
    case (Inr v)
    with assms mt show ?thesis by (simp add: sorted_eigenvalues_def)
  qed
qed

lemma tensor_maps_unfold:
  assumes "tensor_maps eig t = Inr (FA, AD, RD, MD)"
  shows "\<exists>val. sorted_eigenvalues eig t = Inr val \<and>
     shape FA = take 3 (shape val) \<and> shape AD = take 3 (shape val) \<and>
     shape RD = take 3 (shape val) \<and> shape MD = take 3 (shape val) \<and>
     (\<forall>idx. item FA idx = (let r = FA_formula (item val (idx @ [0])) (item val (idx @ [1]))
                                   (item val (idx @ [2])) in if isnan r then Fin 0 else r) \<and>
            item AD idx = Fin (item val (idx @ [0])) \<and>
            item RD idx = Fin ((item val (idx @ [1]) + item val (idx @ [2])) / 2) \<and>
            item MD idx = Fin ((item val (idx @ [0]) + item val (idx @ [1]) + item val (idx @ [2])) / 3))"
proof (cases "sorted_eigenvalues eig t")
  case (Inl e)
  with assms show ?thesis by (simp add: tensor_maps_def)
next
  case (Inr val)
  with assms have
    "FA = nan_to_zero (map_array3 FA_formula (eigen_component val 0) (eigen_component val 1)
            (eigen_component val 2))"
    "AD = nan_to_zero (map_array3 AD_formula (eigen_component val 0) (eigen_component val 1)
            (eigen_component val 2))"
    "RD = nan_to_zero (map_array3 RD_formula (eigen_component val 0) (eigen_component val 1)
            (eigen_component val 2))"
    "MD = nan_to_zero (map_array3 MD_formula (eigen_component val 0) (eigen_component val 1)
            (eigen_component val 2))"
    by (simp_all add: tensor_maps_def Let_def)
  then show ?thesis
    using Inr
    by (simp add: nan_to_zero_def map_array3_def map_array_def eigen_component_def Let_def
        AD_formula_def RD_formula_def MD_formula_def)
qed

lemma tensor_maps_of_eigenvalues:
  assumes "sorted_eigenvalues eig t = Inr val"
  shows "\<exists>FA AD RD MD. tensor_maps eig t = Inr (FA, AD, RD, MD)"
  using assms by (simp add: tensor_maps_def Let_def)

lemma tensor_maps_values:
  assumes tm: "tensor_maps eig t = Inr (FA, AD, RD, MD)"
    and "in_shape (shape AD) idx"
  shows "\<exists>val mt a b c.
      sorted_eigenvalues eig t = Inr val \<and> tensor_matrices t = Inr mt \<and>
      eig (matrix_at mt idx) = Inr (a, b, c) \<and>
      item val (idx @ [0]) \<ge> item val (idx @ [1]) \<and>
      item val (idx @ [1]) \<ge> item val (idx @ [2]) \<and>
      item val (idx @ [0]) = max a (max b c) \<and>
      item val (idx @ [2]) = min a (min b c) \<and>
      item val (idx @ [0]) + item val (idx @ [1]) + item val (idx @ [2]) = a + b + c \<and>
      item AD idx = Fin (item val (idx @ [0])) \<and>
      item RD idx = Fin ((item val (idx @ [1]) + item val (idx @ [2])) / 2) \<and>
      item MD idx = Fin ((item val (idx @ [0]) + item val (idx @ [1]) + item val (idx @ [2])) / 3) \<and>
      item FA idx = (let r = FA_formula (item val (idx @ [0])) (item val (idx @ [1]))
                               (item val (idx @ [2])) in if isnan r then Fin 0 else r)"
proof -
  from tensor_maps_unfold[OF tm] obtain val where
    val: "sorted_eigenvalues eig t = Inr val" and
    shAD: "shape AD = take 3 (shape val)" and
    AD: "item AD idx = Fin (item val (idx @ [0]))" and
    RD: "item RD idx = Fin ((item val (idx @ [1]) + item val (idx @ [2])) / 2)" and
    MD: "item MD idx = Fin ((item val (idx @ [0]) + item val (idx @ [1]) + item val (idx @ [2])) / 3)" and
    FA: "item FA idx = (let r = FA_formula (item val (idx @ [0])) (item val (idx @ [1]))
                               (item val (idx @ [2])) in if isnan r then Fin 0 else r)"
    by blast
  from sorted_eigenvalues_unfold[OF val] obtain mt v where
    mt: "tensor_matrices t = Inr mt" and v: "linalg_eig eig mt = Inr v" and
    valv: "val = map_array uminus (sort_last (map_array uminus v))"
    by blast
  let ?lead = "butlast (butlast (shape mt))"
  have len: "length ?lead = 3" using tensor_matrices_rank[OF mt] by simp
  have shv: "shape v = ?lead @ [3]" by (rule linalg_eig_shape[OF v])
  then have last3: "last (shape v) = 3" by simp
  have "shape val = shape v" by (simp add: valv map_array_def sort_last_def)
  with shAD shv len have "shape AD = ?lead" by simp
  with assms(2) have "in_shape ?lead idx" by simp
  from linalg_eig_item[OF v this] obtain a b c where
    e: "eig (matrix_at mt idx) = Inr (a, b, c)" and
    items: "item v (idx @ [0]) = a" "item v (idx @ [1]) = b" "item v (idx @ [2]) = c"
    by blast
  have it: "item val (idx @ [l]) = - (sort [- a, - b, - c] ! l)" for l
    unfolding valv sorted_item[OF last3] items ..
  have s0: "item val (idx @ [0]) = max a (max b c)"
    unfolding it sort3(1) by (simp add: min_def max_def)
  have s2: "item val (idx @ [2]) = min a (min b c)"
    unfolding it sort3(2) by (simp add: min_def max_def)
  have sum: "item val (idx @ [0]) + item val (idx @ [1]) + item val (idx @ [2]) = a + b + c"
    using sort3(3)[of "- a" "- b" "- c"] unfolding it by simp
  have o1: "item val (idx @ [0]) \<ge> item val (idx @ [1])"
    using sort3(4)[of "- a" "- b" "- c"] unfolding it by simp
  have o2: "item val (idx @ [1]) \<ge> item val (idx @ [2])"
    using sort3(5)[of "- a" "- b" "- c"] unfolding it by simp
  from val mt e o1 o2 s0 s2 sum AD RD MD FA show ?thesis by blast
qed

lemma tensor_to_DTI_fst:
  "fst (tensor_to_DTI eig t st) = tensor_maps eig t"
  by (simp add: tensor_to_DTI_def Let_def split: sum.splits)

lemma tensor_maps_shape:
  assumes tm: "tensor_maps eig t = Inr (FA, AD, RD, MD)"
    and mt: "tensor_matrices t = Inr mt" and sh: "shape mt = [x, y, z, 3, 3]"
  shows "shape FA = [x, y, z] \<and> shape AD = [x, y, z] \<and> shape RD = [x, y, z] \<and>
         shape MD = [x, y, z]"
proof -
  from tensor_maps_unfold[OF tm] obtain val where
    val: "sorted_eigenvalues eig t = Inr val" and
    shs: "shape FA = take 3 (shape val)" "shape AD = take 3 (shape val)"
      "shape RD = take 3 (shape val)" "shape MD = take 3 (shape val)"
    by blast
  from sorted_eigenvalues_unfold[OF val] mt obtain v where
    v: "linalg_eig eig mt = Inr v" and
    valv: "val = map_array uminus (sort_last (map_array uminus v))"
    by auto
  have "shape v = [x, y, z, 3]" using linalg_eig_shape[OF v] sh by simp
  then have "shape val = [x, y, z, 3]" by (simp add: valv map_array_def sort_last_def)
  with shs show ?thesis by simp
qed

lemma tensor_maps_returns:
  assumes mt: "tensor_matrices t = Inr mt" and sh: "shape mt = [x, y, z, 3, 3]"
    and ok: "\<And>i j k. i < x \<Longrightarrow> j < y \<Longrightarrow> k < z \<Longrightarrow> \<exists>r. eig (matrix_at mt [i, j, k]) = Inr r"
  shows "\<exists>FA AD RD MD. tensor_maps eig t = Inr (FA, AD, RD, MD)"
proof -
  have "eig (matrix_at mt idx) = Inr (projr (eig (matrix_at mt idx)))"
    if "in_shape [x, y, z] idx" for idx
  proof -
    from that obtain i j k where "idx = [i, j, k]" "i < x" "j < y" "k < z"
      unfolding in_shape3 by blast
    with ok[of i j k] obtain r where "eig (matrix_at mt idx) = Inr r" by blast
    then show ?thesis by simp
  qed
  moreover have "shape mt = [x, y, z] @ [3, 3]" using sh by simp
  ultimately obtain v where "linalg_eig eig mt = Inr v"
    using linalg_eig_Inr[where lead = "[x, y, z]" and eig = eig and mt = mt
        and f = "\<lambda>idx. projr (eig (matrix_at mt idx))"] by blast
  with mt have "\<exists>val. sorted_eigenvalues eig t = Inr val"
    by (simp add: sorted_eigenvalues_def)
  then show ?thesis using tensor_maps_of_eigenvalues by blast
qed

lemma tensor_maps_raises:
  assumes mt: "tensor_matrices t = Inr mt" and sh: "shape mt = [x, y, z, 3, 3]"
    and tm: "tensor_maps eig t = Inl e"
  shows "\<exists>i j k. i < x \<and> j < y \<and> k < z \<and> eig (matrix_at mt [i, j, k]) = Inl e"
proof -
  from tm mt have "linalg_eig eig mt = Inl e"
    by (auto simp: tensor_maps_def sorted_eigenvalues_def Let_def split: sum.splits)
  from linalg_eig_Inl[OF this] sh show ?thesis
    by (auto simp: in_shape3)
qed



section \<open>Claims about the tensor maps\<close>

text \<open>
  C1, as the code has it: the branch for four axes moves the first axis to the end, so
  it is the first axis that holds the six components.  For every field of shape
  \<open>(n, x, y, z)\<close> with \<open>n \<ge> 6\<close>, the matrix at voxel \<open>(i, j, k)\<close> is built from the
  components by the layout \<open>[[0, 1, 2], [1, 3, 4], [2, 4, 5]]\<close>, that is
  \<open>[[t[0,i,j,k], t[1,i,j,k], t[2,i,j,k]], [t[1,i,j,k], t[3,i,j,k], t[4,i,j,k]],
  [t[2,i,j,k], t[4,i,j,k], t[5,i,j,k]]]\<close>, and every returned map has the shape
  \<open>(x, y, z)\<close> of the last three axes.  The call raises only when the eigen-solver
  raises at some voxel.
\<close>

theorem tensor_to_DTI_rank4:
  assumes sh: "shape t = [n, x, y, z]" and n: "6 \<le> n"
  shows "\<exists>mt. tensor_matrices t = Inr mt \<and> shape mt = [x, y, z, 3, 3] \<and>
     (\<forall>i j k. matrix_at mt [i, j, k] =
        [[item t [0, i, j, k], item t [1, i, j, k], item t [2, i, j, k]],
         [item t [1, i, j, k], item t [3, i, j, k], item t [4, i, j, k]],
         [item t [2, i, j, k], item t [4, i, j, k], item t [5, i, j, k]]]) \<and>
     (case fst (tensor_to_DTI eig t st) of
        Inr (FA, AD, RD, MD) \<Rightarrow>
          shape FA = [x, y, z] \<and> shape AD = [x, y, z] \<and> shape RD = [x, y, z] \<and>
          shape MD = [x, y, z]
      | Inl e \<Rightarrow> \<exists>i j k. i < x \<and> j < y \<and> k < z \<and> eig (matrix_at mt [i, j, k]) = Inl e)"
proof -
  from tensor_matrices_rank4[OF sh n] obtain mt where
    mt: "tensor_matrices t = Inr mt" and shmt: "shape mt = [x, y, z, 3, 3]" and
    m: "\<forall>i j k. matrix_at mt [i, j, k] =
        [[item t [0, i, j, k], item t [1, i, j, k], item t [2, i, j, k]],
         [item t [1, i, j, k], item t [3, i, j, k], item t [4, i, j, k]],
         [item t [2, i, j, k], item t [4, i, j, k], item t [5, i, j, k]]]"
    by blast
  have "case fst (tensor_to_DTI eig t st) of
        Inr (FA, AD, RD, MD) \<Rightarrow>
          shape FA = [x, y, z] \<and> shape AD = [x, y, z] \<and> shape RD = [x, y, z] \<and>
          shape MD = [x, y, z]
      | Inl e \<Rightarrow> \<exists>i j k. i < x \<and> j < y \<and> k < z \<and> eig (matrix_at mt [i, j, k]) = Inl e"
  proof (cases "tensor_maps eig t")
    case (Inl e)
    from tensor_maps_raises[OF mt shmt Inl] Inl show ?thesis
      by (simp add: tensor_to_DTI_fst)
  next
    case (Inr r)
    obtain FA AD RD MD where r: "r = (FA, AD, RD, MD)" by (cases r) auto
    from tensor_maps_shape[OF Inr[unfolded r] mt shmt] Inr r show ?thesis
      by (simp add: tensor_to_DTI_fst)
  qed
  with mt shmt m show ?thesis by blast
qed

text \<open>
  Read with the components on the last axis, as C1 is stated, the claim fails: a field of
  shape \<open>(1, 1, 1, 6)\<close> raises IndexError, and for a field of shape \<open>(6, 1, 2, 6)\<close> the
  maps have shape \<open>(1, 2, 6)\<close>, not \<open>(6, 1, 2)\<close>.
\<close>

theorem tensor_to_DTI_rank4_counterexample:
  "fst (tensor_to_DTI diagonal_eig (full [1, 1, 1, 6] (Fin 0)) default_errstate) = Inl IndexError
   \<and> result_shapes (fst (tensor_to_DTI diagonal_eig (full [6, 1, 2, 6] (Fin 0)) default_errstate))
       = Inr [[1, 2, 6], [1, 2, 6], [1, 2, 6], [1, 2, 6]]"
proof
  have "tensor_matrices (full [1, 1, 1, 6] (Fin 0)) = Inl IndexError"
    by (rule tensor_matrices_rank4_short[where n = 1 and x = 1 and y = 1 and z = 6])
       (simp_all add: full_def)
  then show "fst (tensor_to_DTI diagonal_eig (full [1, 1, 1, 6] (Fin 0)) default_errstate)
      = Inl IndexError"
    by (simp add: tensor_to_DTI_fst tensor_maps_def sorted_eigenvalues_def)
next
  let ?t = "full [6, 1, 2, 6] (Fin 0)"
  have sh: "shape ?t = [6, 1, 2, 6]" by (simp add: full_def)
  from tensor_matrices_rank4[OF sh] obtain mt where
    mt: "tensor_matrices ?t = Inr mt" and shmt: "shape mt = [1, 2, 6, 3, 3]" and
    m: "\<forall>i j k. matrix_at mt [i, j, k] =
        [[item ?t [0, i, j, k], item ?t [1, i, j, k], item ?t [2, i, j, k]],
         [item ?t [1, i, j, k], item ?t [3, i, j, k], item ?t [4, i, j, k]],
         [item ?t [2, i, j, k], item ?t [4, i, j, k], item ?t [5, i, j, k]]]"
    by auto
  have "\<exists>r. diagonal_eig (matrix_at mt [i, j, k]) = Inr r" for i j k
    by (simp add: m full_def diagonal_eig_def)
  then have "\<exists>FA AD RD MD. tensor_maps diagonal_eig ?t = Inr (FA, AD, RD, MD)"
    by (intro tensor_maps_returns[where eig = diagonal_eig, OF mt shmt])
  then obtain FA AD RD MD where
    r: "tensor_maps diagonal_eig ?t = Inr (FA, AD, RD, MD)" by blast
  from tensor_maps_shape[OF r mt shmt] r
  show "result_shapes (fst (tensor_to_DTI diagonal_eig ?t default_errstate))
       = Inr [[1, 2, 6], [1, 2, 6], [1, 2, 6], [1, 2, 6]]"
    by (simp add: tensor_to_DTI_fst result_shapes_def)
qed

theorem tensor_to_DTI_rank4_witness:
  "shape (component_first [Fin 1, Fin 0, Fin 0, Fin 3, Fin 0, Fin 2]) = [6, 1, 1, 1] \<and>
   (6 :: nat) \<le> 6 \<and>
   (\<exists>mt. tensor_matrices (component_first [Fin 1, Fin 0, Fin 0, Fin 3, Fin 0, Fin 2]) = Inr mt \<and>
      matrix_at mt [0, 0, 0] =
        [[Fin 1, Fin 0, Fin 0], [Fin 0, Fin 3, Fin 0], [Fin 0, Fin 0, Fin 2]]) \<and>
   result_shapes (fst (tensor_to_DTI diagonal_eig
        (component_first [Fin 1, Fin 0, Fin 0, Fin 3, Fin 0, Fin 2]) default_errstate))
     = Inr [[1, 1, 1], [1, 1, 1], [1, 1, 1], [1, 1, 1]]"
proof -
  let ?t = "component_first [Fin 1, Fin 0, Fin 0, Fin 3, Fin 0, Fin 2]"
  have sh: "shape ?t = [6, 1, 1, 1]" by (simp add: component_first_def)
  from tensor_to_DTI_rank4[OF sh, where eig = diagonal_eig and st = default_errstate]
  obtain mt where
    mt: "tensor_matrices ?t = Inr mt" and
    m: "\<forall>i j k. matrix_at mt [i, j, k] =
        [[item ?t [0, i, j, k], item ?t [1, i, j, k], item ?t [2, i, j, k]],
         [item ?t [1, i, j, k], item ?t [3, i, j, k], item ?t [4, i, j, k]],
         [item ?t [2, i, j, k], item ?t [4, i, j, k], item ?t [5, i, j, k]]]" and
    c: "case fst (tensor_to_DTI diagonal_eig ?t default_errstate) of
        Inr (FA, AD, RD, MD) \<Rightarrow>
          shape FA = [1, 1, 1] \<and> shape AD = [1, 1, 1] \<and> shape RD = [1, 1, 1] \<and>
          shape MD = [1, 1, 1]
      | Inl e \<Rightarrow> \<exists>i j k. i < 1 \<and> j < 1 \<and> k < 1 \<and> diagonal_eig (matrix_at mt [i, j, k]) = Inl e"
    by auto
  have m0: "matrix_at mt [0, 0, 0] =
        [[Fin 1, Fin 0, Fin 0], [Fin 0, Fin 3, Fin 0], [Fin 0, Fin 0, Fin 2]]"
    by (simp add: m component_first_def)
  have "result_shapes (fst (tensor_to_DTI diagonal_eig ?t default_errstate))
     = Inr [[1, 1, 1], [1, 1, 1], [1, 1, 1], [1, 1, 1]]"
  proof (cases "fst (tensor_to_DTI diagonal_eig ?t default_errstate)")
    case (Inl e)
    with c have "diagonal_eig (matrix_at mt [0, 0, 0]) = Inl e" by simp
    then show ?thesis by (simp add: m0 diagonal_eig_def)
  next
    case (Inr r)
    with c show ?thesis by (auto simp: result_shapes_def)
  qed
  with sh mt m0 show ?thesis by simp
qed

text \<open>
  C2: whenever \<open>tensor_to_DTI\<close> returns, at every voxel the three eigenvalues that enter
  the formulas are in descending order: they are the solver's three values rearranged,
  the first the largest and the last the smallest.  AD is the first (the largest) and
  RD the mean of the other two (the two smallest).
\<close>

theorem eigenvalues_descending:
  assumes "fst (tensor_to_DTI eig t st) = Inr (FA, AD, RD, MD)"
    and "in_shape (shape AD) idx"
  shows "\<exists>val mt a b c.
      sorted_eigenvalues eig t = Inr val \<and> tensor_matrices t = Inr mt \<and>
      eig (matrix_at mt idx) = Inr (a, b, c) \<and>
      item val (idx @ [0]) \<ge> item val (idx @ [1]) \<and>
      item val (idx @ [1]) \<ge> item val (idx @ [2]) \<and>
      item val (idx @ [0]) = max a (max b c) \<and>
      item val (idx @ [2]) = min a (min b c) \<and>
      item val (idx @ [0]) + item val (idx @ [1]) + item val (idx @ [2]) = a + b + c \<and>
      item AD idx = Fin (item val (idx @ [0])) \<and>
      item RD idx = Fin ((item val (idx @ [1]) + item val (idx @ [2])) / 2)"
proof -
  from assms(1) have "tensor_maps eig t = Inr (FA, AD, RD, MD)"
    by (simp add: tensor_to_DTI_fst)
  from tensor_maps_values[OF this assms(2)] show ?thesis by blast
qed

theorem eigenvalues_descending_witness:
  "\<exists>FA AD RD MD val.
     fst (tensor_to_DTI diagonal_eig
            (single_voxel [Fin 1, Fin 0, Fin 3, Fin 0, Fin 0, Fin 2]) default_errstate)
       = Inr (FA, AD, RD, MD) \<and>
     in_shape (shape AD) [0, 0, 0] \<and>
     sorted_eigenvalues diagonal_eig (single_voxel [Fin 1, Fin 0, Fin 3, Fin 0, Fin 0, Fin 2])
       = Inr val \<and>
     item val [0, 0, 0, 0] = 3 \<and> item val [0, 0, 0, 1] = 2 \<and> item val [0, 0, 0, 2] = 1 \<and>
     item AD [0, 0, 0] = Fin 3 \<and> item RD [0, 0, 0] = Fin (3 / 2)"
proof -
  let ?t = "single_voxel [Fin 1, Fin 0, Fin 3, Fin 0, Fin 0, Fin 2]"
  have sh: "shape ?t = [1, 1, 1, 1, 6]" by (simp add: single_voxel_def)
  from tensor_matrices_rank5[OF sh] obtain mt where
    mt: "tensor_matrices ?t = Inr mt" and shmt: "shape mt = [1, 1, 1, 3, 3]" and
    m: "\<forall>i j k. matrix_at mt [i, j, k] =
        [[item ?t [i, j, k, 0, 0], item ?t [i, j, k, 0, 1], item ?t [i, j, k, 0, 3]],
         [item ?t [i, j, k, 0, 1], item ?t [i, j, k, 0, 2], item ?t [i, j, k, 0, 4]],
         [item ?t [i, j, k, 0, 3], item ?t [i, j, k, 0, 4], item ?t [i, j, k, 0, 5]]]"
    by auto
  have e: "diagonal_eig (matrix_at mt [i, j, k]) = Inr (1, 3, 2)" for i j k
    by (simp add: m single_voxel_def diagonal_eig_def)
  then have "\<exists>r. diagonal_eig (matrix_at mt [i, j, k]) = Inr r" for i j k by blast
  then have "\<exists>FA AD RD MD. tensor_maps diagonal_eig ?t = Inr (FA, AD, RD, MD)"
    by (intro tensor_maps_returns[where eig = diagonal_eig, OF mt shmt])
  then obtain FA AD RD MD where tm: "tensor_maps diagonal_eig ?t = Inr (FA, AD, RD, MD)"
    by blast
  then have r: "fst (tensor_to_DTI diagonal_eig ?t default_errstate) = Inr (FA, AD, RD, MD)"
    by (simp add: tensor_to_DTI_fst)
  from tensor_maps_shape[OF tm mt shmt] have ins: "in_shape (shape AD) [0, 0, 0]"
    by (simp add: in_shape_def)
  from eigenvalues_descending[OF r ins] obtain val mt' a b c where
    val: "sorted_eigenvalues diagonal_eig ?t = Inr val" and
    mt': "tensor_matrices ?t = Inr mt'" and
    abc: "diagonal_eig (matrix_at mt' [0, 0, 0]) = Inr (a, b, c)" and
    v0: "item val ([0, 0, 0] @ [0]) = max a (max b c)" and
    v2: "item val ([0, 0, 0] @ [2]) = min a (min b c)" and
    sum: "item val ([0, 0, 0] @ [0]) + item val ([0, 0, 0] @ [1]) + item val ([0, 0, 0] @ [2])
            = a + b + c" and
    AD: "item AD [0, 0, 0] = Fin (item val ([0, 0, 0] @ [0]))" and
    RD: "item RD [0, 0, 0] = Fin ((item val ([0, 0, 0] @ [1]) + item val ([0, 0, 0] @ [2])) / 2)"
    by blast
  from mt mt' have "mt' = mt" by simp
  with abc e[of 0 0 0] have "a = 1" "b = 3" "c = 2" by simp_all
  with v0 v2 sum have "item val [0, 0, 0, 0] = 3" "item val [0, 0, 0, 2] = 1"
    "item val [0, 0, 0, 1] = 2" by simp_all
  with AD RD r ins val show ?thesis by simp
qed

text \<open>
  C6, as the code has it: the two calls of \<open>np.seterr\<close> are plain statements.  When
  \<open>tensor_to_DTI\<close> returns, division and invalid-operation handling are set to
  \<open>warn\<close>, whatever they were before the call; when an error is raised in between they
  are left at \<open>ignore\<close>.  The other two settings are never touched.
\<close>

theorem seterr_after_tensor_to_DTI:
  "snd (tensor_to_DTI eig t st) =
     (case fst (tensor_to_DTI eig t st) of
        Inr maps \<Rightarrow> st\<lparr>err_divide := Warn, err_invalid := Warn\<rparr>
      | Inl e \<Rightarrow> st\<lparr>err_divide := Ignore, err_invalid := Ignore\<rparr>)"
  by (simp add: tensor_to_DTI_def Let_def seterr_def split: sum.splits)

text \<open>
  The claim that the state is restored on every exit path fails: on a field holding NaN
  the eigen-solver raises LinAlgError, and the handling that was \<open>warn\<close> before the
  call is \<open>ignore\<close> after it.
\<close>

theorem seterr_leak_counterexample:
  "fst (tensor_to_DTI diagonal_eig (full [1, 1, 1, 1, 6] NaN) default_errstate) = Inl LinAlgError \<and>
   err_divide default_errstate = Warn \<and> err_invalid default_errstate = Warn \<and>
   err_divide (snd (tensor_to_DTI diagonal_eig (full [1, 1, 1, 1, 6] NaN) default_errstate)) = Ignore \<and>
   err_invalid (snd (tensor_to_DTI diagonal_eig (full [1, 1, 1, 1, 6] NaN) default_errstate)) = Ignore"
proof -
  let ?t = "full [1, 1, 1, 1, 6] NaN :: fl ndarray"
  have sh: "shape ?t = [1, 1, 1, 1, 6]" by (simp add: full_def)
  from tensor_matrices_rank5[OF sh] obtain mt where
    mt: "tensor_matrices ?t = Inr mt" and shmt: "shape mt = [1, 1, 1, 3, 3]" and
    m: "\<forall>i j k. matrix_at mt [i, j, k] =
        [[item ?t [i, j, k, 0, 0], item ?t [i, j, k, 0, 1], item ?t [i, j, k, 0, 3]],
         [item ?t [i, j, k, 0, 1], item ?t [i, j, k, 0, 2], item ?t [i, j, k, 0, 4]],
         [item ?t [i, j, k, 0, 3], item ?t [i, j, k, 0, 4], item ?t [i, j, k, 0, 5]]]"
    by auto
  have e: "diagonal_eig (matrix_at mt [0, 0, 0]) = Inl LinAlgError"
    by (simp add: m full_def diagonal_eig_def)
  have "linalg_eig diagonal_eig mt = Inl LinAlgError"
    by (simp add: linalg_eig_def shmt Let_def upt_rec e)
  with mt have tm: "tensor_maps diagonal_eig ?t = Inl LinAlgError"
    by (simp add: tensor_maps_def sorted_eigenvalues_def)
  then show ?thesis
    by (simp add: tensor_to_DTI_def Let_def seterr_def default_errstate_def)
qed



section \<open>Properties of the overlay\<close>

lemma process_layer_result:
  assumes bk: "bk < fresh s"
  shows "case prepared_layer zoom order ms (arrays s layer) of
      Inl e \<Rightarrow> fst (process_layer zoom order ms bk layer s) = Inl e \<and>
               arrays (snd (process_layer zoom order ms bk layer s)) bk = arrays s bk
    | Inr L \<Rightarrow>
        (case composite (arrays s bk) L of
           Inl e \<Rightarrow> fst (process_layer zoom order ms bk layer s) = Inl e \<and>
                    arrays (snd (process_layer zoom order ms bk layer s)) bk = arrays s bk
         | Inr b \<Rightarrow> fst (process_layer zoom order ms bk layer s) = Inr () \<and>
                    arrays (snd (process_layer zoom order ms bk layer s)) bk = b)"
proof (cases "shape (arrays s layer) = []")
  case True
  then show ?thesis by (simp add: prepared_layer_def resampled_layer_def process_layer_def)
next
  case ne: False
  let ?A = "arrays s layer"
  show ?thesis
  proof (cases "if last (shape ?A) \<noteq> 3 then grayscale_to_rgb ?A else Inr ?A")
    case (Inl e)
    then show ?thesis
      using ne by (auto simp: prepared_layer_def resampled_layer_def process_layer_def split: if_splits)
  next
    case (Inr l)
    define s1 where "s1 = (if last (shape ?A) \<noteq> 3 then snd (alloc l s) else s)"
    define a1 where "a1 = (if last (shape ?A) \<noteq> 3 then fst (alloc l s) else layer)"
    have first: "(if last (shape ?A) \<noteq> 3
              then (case grayscale_to_rgb ?A of
                      Inl e \<Rightarrow> Inl e
                    | Inr g \<Rightarrow> Inr (alloc g s))
              else Inr (layer, s)) = Inr (a1, s1)"
      using Inr by (auto simp: s1_def a1_def split: if_splits)
    have l: "arrays s1 a1 = l"
      using Inr by (auto simp: s1_def a1_def alloc_def split: if_splits)
    have bk1: "bk < fresh s1" "arrays s1 bk = arrays s bk"
      using bk by (auto simp: s1_def alloc_def)
    show ?thesis
    proof (cases "zoom_factors ms (take 3 (shape l))")
      case (Inl e)
      then show ?thesis
        using ne Inr first l bk1
        by (simp add: prepared_layer_def resampled_layer_def process_layer_def)
    next
      case fs: (Inr fs)
      show ?thesis
      proof (cases "zoom l (fs @ [1]) order")
        case (Inl e)
        then show ?thesis
          using ne Inr first l bk1 fs
          by (simp add: prepared_layer_def resampled_layer_def process_layer_def)
      next
        case z: (Inr z)
        obtain a2 s2 where al: "alloc z s1 = (a2, s2)" by (cases "alloc z s1") auto
        then have a2: "arrays s2 a2 = z" "a2 \<noteq> bk" "arrays s2 bk = arrays s bk"
          using bk1 by (auto simp: alloc_def)
        show ?thesis
        proof (cases "np_max z")
          case (Inl e)
          then show ?thesis
            using ne Inr first l bk1 fs z al a2
            by (simp add: prepared_layer_def resampled_layer_def process_layer_def normalized_def)
        next
          case m: (Inr m)
          show ?thesis
          proof (cases "composite (arrays s bk) (map_array (\<lambda>v. fdiv v m) z)")
            case (Inl e)
            then show ?thesis
              using ne Inr first l bk1 fs z al a2 m
              by (simp add: prepared_layer_def resampled_layer_def process_layer_def normalized_def Let_def)
          next
            case (Inr b)
            then show ?thesis
              using ne \<open>(if last (shape ?A) \<noteq> 3 then grayscale_to_rgb ?A else Inr ?A) = Inr l\<close>
                first l bk1 fs z al a2 m
              by (simp add: prepared_layer_def resampled_layer_def process_layer_def normalized_def Let_def)
          qed
        qed
      qed
    qed
  qed
qed

lemma process_layer_frame:
  assumes "process_layer zoom order ms bk layer s = (r, s')"
  shows "fresh s \<le> fresh s' \<and> vol_list s' = vol_list s \<and>
         (\<forall>p < fresh s. p \<noteq> bk \<longrightarrow> arrays s' p = arrays s p)"
  using assms
  by (auto simp: process_layer_def alloc_def Let_def
      split: if_splits sum.splits prod.splits)

lemma composite_shape: "composite bk L = Inr b \<Longrightarrow> shape b = shape bk"
  by (auto simp: composite_def Let_def split: if_splits)

lemma process_layer_back_shape:
  assumes "bk < fresh s"
  shows "shape (arrays (snd (process_layer zoom order ms bk layer s)) bk) = shape (arrays s bk)"
  using process_layer_result[OF assms, of zoom order ms layer]
  by (auto split: sum.splits dest: composite_shape)

lemma overlap_loop_frame:
  "overlap_loop zoom order ms bk s = (r, s') \<Longrightarrow>
     fresh s \<le> fresh s' \<and>
     (\<forall>p < fresh s. p \<noteq> bk \<longrightarrow> arrays s' p = arrays s p) \<and>
     (r = Inr () \<longrightarrow> vol_list s' = []) \<and>
     (bk < fresh s \<longrightarrow> shape (arrays s' bk) = shape (arrays s bk))"
proof (induction zoom order ms bk s arbitrary: r s' rule: overlap_loop.induct)
  case (1 zoom order ms bk s)
  show ?case
  proof (cases "0 < length (vol_list s)")
    case False
    with "1.prems" show ?thesis by (simp add: overlap_loop.simps[of zoom order ms bk s])
  next
    case True
    let ?s0 = "s\<lparr>vol_list := butlast (vol_list s)\<rparr>"
    obtain r1 s1 where p: "process_layer zoom order ms bk (last (vol_list s)) ?s0 = (r1, s1)"
      by (cases "process_layer zoom order ms bk (last (vol_list s)) ?s0") auto
    from process_layer_frame[OF p] have f1: "fresh s \<le> fresh s1"
      "\<forall>p < fresh s. p \<noteq> bk \<longrightarrow> arrays s1 p = arrays s p" by simp_all
    have sh1: "bk < fresh s \<Longrightarrow> shape (arrays s1 bk) = shape (arrays s bk)"
      using process_layer_back_shape[of bk ?s0 zoom order ms "last (vol_list s)"] p by simp
    show ?thesis
    proof (cases r1)
      case (Inl e)
      with "1.prems" True p have "r = Inl e" "s' = s1"
        by (simp_all add: overlap_loop.simps[of zoom order ms bk s])
      with f1 sh1 show ?thesis by simp
    next
      case (Inr u)
      with "1.prems" True p have run: "overlap_loop zoom order ms bk s1 = (r, s')"
        by (simp add: overlap_loop.simps[of zoom order ms bk s])
      from "1.IH"[OF True p[symmetric] _ run] Inr
      have IH: "fresh s1 \<le> fresh s'"
        "\<forall>p < fresh s1. p \<noteq> bk \<longrightarrow> arrays s' p = arrays s1 p"
        "r = Inr () \<longrightarrow> vol_list s' = []"
        "bk < fresh s1 \<longrightarrow> shape (arrays s' bk) = shape (arrays s1 bk)"
        by simp_all
      from f1 IH sh1 show ?thesis by auto
    qed
  qed
qed

lemma raise_max3:
  "raise_max [m0, m1, m2] [x, y, z] = [max m0 x, max m1 y, max m2 z]"
  by (simp add: raise_max_def enumerate_eq_zip upt_rec max_def)

lemma take3: "3 \<le> length sh \<Longrightarrow> take 3 sh = [sh ! 0, sh ! 1, sh ! 2]"
proof -
  assume "3 \<le> length sh"
  then obtain a b c rest where "sh = a # b # c # rest"
    by (cases sh; cases "tl sh"; cases "tl (tl sh)") auto
  then show ?thesis by simp
qed

lemma max_size_loop_Inr:
  "max_size_loop [m0, m1, m2] shs = Inr ms \<Longrightarrow>
     ms = [Max (insert m0 ((\<lambda>sh. sh ! 0) ` set shs)),
           Max (insert m1 ((\<lambda>sh. sh ! 1) ` set shs)),
           Max (insert m2 ((\<lambda>sh. sh ! 2) ` set shs))]"
proof (induction shs arbitrary: m0 m1 m2)
  case Nil
  then show ?case by simp
next
  case (Cons sh shs)
  from Cons.prems have len: "3 \<le> length sh" by (auto split: if_splits)
  with Cons.prems have
    "max_size_loop [max m0 (sh ! 0), max m1 (sh ! 1), max m2 (sh ! 2)] shs = Inr ms"
    by (simp add: take3 raise_max3)
  from Cons.IH[OF this] have ms: "ms =
      [Max (insert (max m0 (sh ! 0)) ((\<lambda>sh. sh ! 0) ` set shs)),
       Max (insert (max m1 (sh ! 1)) ((\<lambda>sh. sh ! 1) ` set shs)),
       Max (insert (max m2 (sh ! 2)) ((\<lambda>sh. sh ! 2) ` set shs))]" .
  have "Max (insert (max m x) S) = Max (insert m (insert x S))" if "finite S"
    for m x :: nat and S
    using that by (cases "S = {}") (simp_all add: max.assoc)
  then show ?case unfolding ms by simp
qed


lemma overlap_volumes_Inr:
  assumes "overlap_volumes zoom rgb order s = (Inr r, s')"
  shows "\<exists>ms s2. max_size_loop [0, 0, 0] (map (\<lambda>a. shape (arrays s a)) (vol_list s)) = Inr ms \<and>
     overlap_loop zoom order ms (fresh s)
       (s\<lparr>arrays := (arrays s)(fresh s := full (ms @ [3]) (Fin 0)), fresh := Suc (fresh s)\<rparr>)
       = (Inr (), s2) \<and>
     (if rgb then r = fresh s \<and> s' = s2
      else r = fresh s2 \<and>
           s' = s2\<lparr>arrays := (arrays s2)(fresh s2 := first_channel (arrays s2 (fresh s))),
                   fresh := Suc (fresh s2)\<rparr>)"
proof (cases "max_size_loop [0, 0, 0] (map (\<lambda>a. shape (arrays s a)) (vol_list s))")
  case (Inl e)
  with assms show ?thesis by (simp add: overlap_volumes_def)
next
  case (Inr ms)
  let ?s1 = "s\<lparr>arrays := (arrays s)(fresh s := full (ms @ [3]) (Fin 0)), fresh := Suc (fresh s)\<rparr>"
  obtain r2 s2 where l: "overlap_loop zoom order ms (fresh s) ?s1 = (r2, s2)"
    by (cases "overlap_loop zoom order ms (fresh s) ?s1") auto
  show ?thesis
  proof (cases r2)
    case (Inl e)
    with assms Inr l show ?thesis by (simp add: overlap_volumes_def alloc_def)
  next
    case u: (Inr u)
    with assms Inr l show ?thesis
      by (auto simp: overlap_volumes_def alloc_def split: if_splits)
  qed
qed

lemma overlap_loop_Nil:
  "vol_list s = [] \<Longrightarrow> overlap_loop zoom order ms bk s = (Inr (), s)"
  by (simp add: overlap_loop.simps[of zoom order ms bk s])

lemma overlap_loop_pop:
  "vol_list s \<noteq> [] \<Longrightarrow>
     overlap_loop zoom order ms bk s =
       (case process_layer zoom order ms bk (last (vol_list s))
               (s\<lparr>vol_list := butlast (vol_list s)\<rparr>) of
          (Inl e, s') \<Rightarrow> (Inl e, s')
        | (Inr u, s') \<Rightarrow> overlap_loop zoom order ms bk s')"
  by (simp add: overlap_loop.simps[of zoom order ms bk s])

lemmas overlay_eval =
  overlap_volumes_def state_of_def full_def from_list_def alloc_def raise_max_def
  enumerate_eq_zip upt_rec overlap_loop_pop overlap_loop_Nil process_layer_def
  grayscale_to_rgb_def newaxis_last_def zoom_factors_def nearest_zoom_def np_max_def
  array_items_def composite_def channel_sum_def map_array_def first_channel_def Let_def
  inf_of_sign_def

lemma fmax_commute: "fmax a b = fmax b a"
  by (cases a; cases b) (simp_all add: max.commute)

lemma fmax_choice: "fmax a b = a \<or> fmax a b = b"
  by (cases a; cases b) (auto simp: max_def)

lemma fmax_assoc: "fmax (fmax a b) c = fmax a (fmax b c)"
  by (cases a; cases b; cases c) (simp_all add: max.assoc)

lemma fmax_idem: "fmax a a = a"
  by (cases a) simp_all

lemma foldl_fmax_step: "foldl fmax (fmax a b) vs = fmax a (foldl fmax b vs)"
  by (induction vs arbitrary: b) (simp_all add: fmax_assoc)

lemma foldl_fmax_in: "foldl fmax v vs \<in> set (v # vs)"
proof (induction vs arbitrary: v)
  case Nil
  show ?case by simp
next
  case (Cons w ws)
  from Cons.IH[of "fmax v w"] fmax_choice[of v w] Cons.IH[of v] Cons.IH[of w]
  show ?case by auto
qed

lemma foldl_fmax_upper: "x \<in> set (v # vs) \<Longrightarrow> fmax x (foldl fmax v vs) = foldl fmax v vs"
proof (induction vs arbitrary: v)
  case Nil
  then show ?case by (simp add: fmax_idem)
next
  case (Cons w ws)
  have step: "foldl fmax (fmax v w) ws = fmax v (foldl fmax w ws)"
    by (rule foldl_fmax_step)
  from Cons.prems consider "x = v" | "x \<in> set (w # ws)" by auto
  then show ?case
  proof cases
    case 1
    then show ?thesis
      by (simp add: step fmax_assoc[symmetric] fmax_idem)
  next
    case 2
    from Cons.IH[OF 2] have "fmax x (foldl fmax w ws) = foldl fmax w ws" .
    then have "fmax x (fmax v (foldl fmax w ws)) = fmax v (foldl fmax w ws)"
      by (metis fmax_assoc fmax_commute)
    then show ?thesis by (simp add: step)
  qed
qed

lemma np_max_eq:
  assumes "m \<in> set (array_items a)" and "\<And>x. x \<in> set (array_items a) \<Longrightarrow> fmax x m = m"
  shows "np_max a = Inr m"
proof (cases "array_items a")
  case Nil
  with assms(1) show ?thesis by simp
next
  case (Cons v vs)
  let ?r = "foldl fmax v vs"
  have r_in: "?r \<in> set (array_items a)" using foldl_fmax_in[of v vs] Cons by simp
  have "fmax m ?r = ?r" using foldl_fmax_upper[of m v vs] assms(1) Cons by simp
  moreover have "fmax ?r m = m" using assms(2)[OF r_in] .
  ultimately have "?r = m" by (simp add: fmax_commute)
  with Cons show ?thesis by (simp add: np_max_def)
qed

lemma np_max_cases:
  "(array_items a = [] \<and> np_max a = Inl ValueError) \<or>
   (\<exists>m. np_max a = Inr m \<and> m \<in> set (array_items a) \<and>
        (\<forall>x \<in> set (array_items a). fmax x m = m))"
proof (cases "array_items a")
  case Nil
  then show ?thesis by (simp add: np_max_def)
next
  case (Cons v vs)
  with foldl_fmax_in[of v vs] foldl_fmax_upper[of _ v vs] show ?thesis
    by (auto simp: np_max_def)
qed

lemma np_max_cong:
  assumes "set (array_items a) = set (array_items b)"
  shows "np_max a = np_max b"
proof -
  from np_max_cases[of b] consider
      "array_items b = []" "np_max b = Inl ValueError"
    | m where "np_max b = Inr m" "m \<in> set (array_items b)"
        "\<forall>x \<in> set (array_items b). fmax x m = m"
    by blast
  then show ?thesis
  proof cases
    case 1
    with assms have "array_items a = []" by simp
    with 1 show ?thesis by (simp add: np_max_def)
  next
    case 2
    with assms np_max_eq[of m a] show ?thesis by simp
  qed
qed

lemma set_array_items: "set (array_items a) = {item a idx | idx. in_shape (shape a) idx}"
  by (auto simp: array_items_def set_ndindex)

lemma overlap_loop_first:
  "overlap_loop zoom order ms bk s = (Inr u, s') \<Longrightarrow> vol_list s = a # rest \<Longrightarrow>
   bk < fresh s \<Longrightarrow> a < fresh s \<Longrightarrow> a \<noteq> bk \<Longrightarrow>
     \<exists>bprev L. prepared_layer zoom order ms (arrays s a) = Inr L \<and>
        shape bprev = shape (arrays s bk) \<and>
        (rest = [] \<longrightarrow> bprev = arrays s bk) \<and>
        composite bprev L = Inr (arrays s' bk)"
proof (induction zoom order ms bk s arbitrary: rest rule: overlap_loop.induct)
  case (1 zoom order ms bk s)
  from "1.prems"(2) have ne: "vol_list s \<noteq> []" by simp
  let ?s0 = "s\<lparr>vol_list := butlast (vol_list s)\<rparr>"
  let ?l = "last (vol_list s)"
  obtain r1 s1 where p: "process_layer zoom order ms bk ?l ?s0 = (r1, s1)"
    by (cases "process_layer zoom order ms bk ?l ?s0") auto
  from "1.prems"(1) ne p obtain u1 where r1: "r1 = Inr u1"
    and run: "overlap_loop zoom order ms bk s1 = (Inr u, s')"
    by (cases r1) (simp_all add: overlap_loop_pop)
  from process_layer_frame[OF p] have f1: "fresh s \<le> fresh s1"
    "vol_list s1 = butlast (vol_list s)"
    "\<forall>p < fresh s. p \<noteq> bk \<longrightarrow> arrays s1 p = arrays s p" by simp_all
  have bk0: "bk < fresh ?s0" using "1.prems"(3) by simp
  have sh1: "shape (arrays s1 bk) = shape (arrays s bk)"
    using process_layer_back_shape[OF bk0, of zoom order ms ?l] p by simp
  show ?case
  proof (cases rest)
    case Nil
    with "1.prems"(2) have l: "?l = a" and vl1: "vol_list s1 = []" using f1(2) by simp_all
    from run vl1 have s': "s' = s1" by (simp add: overlap_loop_Nil)
    from process_layer_result[OF bk0, of zoom order ms ?l] p r1 l
    obtain L b where "prepared_layer zoom order ms (arrays s a) = Inr L"
      "composite (arrays s bk) L = Inr b" "arrays s1 bk = b"
      by (auto split: sum.splits)
    with s' Nil show ?thesis by auto
  next
    case (Cons x xs)
    with "1.prems"(2) have vl1: "vol_list s1 = a # butlast rest" using f1(2) by simp
    have a1: "arrays s1 a = arrays s a" using f1(3) "1.prems"(4,5) by simp
    have "0 < length (vol_list s)" using ne by simp
    from "1.IH"[OF this p[symmetric] _ run vl1] r1 f1(1) "1.prems"(3,4,5)
    obtain bprev L where "prepared_layer zoom order ms (arrays s1 a) = Inr L"
      "shape bprev = shape (arrays s1 bk)" "composite bprev L = Inr (arrays s' bk)"
      by auto
    with a1 sh1 Cons show ?thesis by auto
  qed
qed

lemma composite_Inr:
  assumes "composite bk L = Inr b"
  shows "length (shape L) = 4" and "take 3 (shape L) = take 3 (shape bk)"
    and "shape L ! 3 = shape bk ! 3 \<or> shape L ! 3 = 1"
    and "shape b = shape bk"
    and "item b idx = (if channel_sum L (take 3 idx) \<noteq> Fin 0
                       then item L (take 3 idx @ [if shape L ! 3 = 1 then 0 else idx ! 3])
                       else item bk idx)"
  using assms by (auto simp: composite_def Let_def split: if_splits)

lemma in_shape4:
  "in_shape [a, b, c, d] idx \<longleftrightarrow>
     (\<exists>i j k l. idx = [i, j, k, l] \<and> i < a \<and> j < b \<and> k < c \<and> l < d)"
  by (auto simp: in_shape_Cons)

lemma shape4_of_take3:
  assumes "length sh = 4" and "take 3 sh = [a, b, c]"
  shows "sh = [a, b, c, sh ! 3]"
proof -
  from assms(1) obtain p q r t where "sh = [p, q, r, t]"
    by (cases sh; cases "tl sh"; cases "tl (tl sh)"; cases "tl (tl (tl sh))") auto
  with assms(2) show ?thesis by simp
qed

lemma max_size_loop_length:
  "max_size_loop [0, 0, 0] shs = Inr ms \<Longrightarrow> \<exists>a b c. ms = [a, b, c]"
  using max_size_loop_Inr[of 0 0 0 shs ms] by blast

lemma normalized_zero:
  assumes n: "normalized z = Inr L"
    and zero: "\<forall>idx. in_shape (shape z) idx \<longrightarrow> item z idx = Fin 0"
  shows "shape L = shape z \<and> (\<forall>idx. in_shape (shape z) idx \<longrightarrow> item L idx = NaN)"
proof -
  from n obtain m where m: "np_max z = Inr m" and L: "L = map_array (\<lambda>v. fdiv v m) z"
    by (auto simp: normalized_def split: sum.splits)
  from np_max_cases[of z] m have "m \<in> set (array_items z)" by auto
  with zero have "m = Fin 0" by (auto simp: set_array_items)
  with L zero show ?thesis by (simp add: map_array_def inf_of_sign_def)
qed

lemma nan_layer_composite:
  assumes c: "composite bprev L = Inr b" and sh: "shape bprev = [a0, a1, a2, 3]"
    and nan: "\<forall>idx. in_shape (shape L) idx \<longrightarrow> item L idx = NaN"
    and idx: "in_shape [a0, a1, a2, 3] idx"
  shows "item b idx = NaN"
proof -
  note C = composite_Inr[OF c]
  from C(1,2) sh have shL: "shape L = [a0, a1, a2, shape L ! 3]"
    by (intro shape4_of_take3) simp_all
  from C(3) sh consider (three) "shape L ! 3 = 3" | (one) "shape L ! 3 = 1" by auto
  then have ch: "shape L ! 3 = 3 \<or> shape L ! 3 = 1" by blast
  from idx obtain i j k l where ijk: "idx = [i, j, k, l]" "i < a0" "j < a1" "k < a2" "l < 3"
    unfolding in_shape4 by blast
  have at: "item L [i, j, k, c] = NaN" if "c < shape L ! 3" for c
  proof -
    have "in_shape [a0, a1, a2, shape L ! 3] [i, j, k, c]"
      using ijk that unfolding in_shape4 by blast
    with shL have "in_shape (shape L) [i, j, k, c]" by simp
    with nan show ?thesis by blast
  qed
  have at0: "item L [i, j, k, 0] = NaN" using at[of 0] ch by auto
  have sum: "channel_sum L [i, j, k] = NaN"
  proof -
    from ch show ?thesis
    proof
      assume three: "shape L ! 3 = 3"
      then have "item L [i, j, k, 0] = NaN" "item L [i, j, k, 1] = NaN"
        "item L [i, j, k, 2] = NaN" using at by simp_all
      then show ?thesis by (simp add: channel_sum_def three upt_rec)
    next
      assume one: "shape L ! 3 = 1"
      with at0 show ?thesis by (simp add: channel_sum_def)
    qed
  qed
  have sel: "item L [i, j, k, if shape L ! 3 = 1 then 0 else l] = NaN"
    using at[of l] at0 ijk(5) ch by auto
  have "item b idx = item L (take 3 idx @ [if shape L ! 3 = 1 then 0 else idx ! 3])"
    using C(5)[of idx] sum ijk(1) by simp
  also have "\<dots> = item L [i, j, k, if shape L ! 3 = 1 then 0 else l]"
    using ijk(1) by simp
  finally show ?thesis using sel by (simp only:)
qed

lemma grayscale_to_rgb3:
  assumes "shape A = [x, y, z]"
  shows "\<exists>g. grayscale_to_rgb A = Inr g \<and> shape g = [x, y, z, 3] \<and>
           (\<forall>i j k c. item g [i, j, k, c] = item A [i, j, k])"
  using assms by (simp add: grayscale_to_rgb_def newaxis_last_def Let_def)

lemma resampled_same_size:
  assumes zoom: "keeps_same_size zoom order"
    and sh: "shape A = [x, y, z]" and z3: "z \<noteq> 3"
    and pos: "0 < x" "0 < y" "0 < z"
  shows "\<exists>Z. resampled_layer zoom order [x, y, z] A = Inr Z \<and> shape Z = [x, y, z, 3] \<and>
           (\<forall>i j k c. i < x \<and> j < y \<and> k < z \<and> c < 3 \<longrightarrow> item Z [i, j, k, c] = item A [i, j, k])"
proof -
  from grayscale_to_rgb3[OF sh] obtain g where
    g: "grayscale_to_rgb A = Inr g" "shape g = [x, y, z, 3]"
    "\<forall>i j k c. item g [i, j, k, c] = item A [i, j, k]" by blast
  have fs: "zoom_factors [x, y, z] (take 3 (shape g)) = Inr [1, 1, 1]"
    using pos by (simp add: zoom_factors_def g(2))
  have "length ([1, 1, 1] @ [1 :: real]) = length (shape g) \<and>
        list_all (\<lambda>f. f = 1) ([1, 1, 1] @ [1 :: real])"
    by (simp add: g(2))
  with zoom obtain Z where Z: "zoom g ([1, 1, 1] @ [1]) order = Inr Z" "shape Z = shape g"
    "\<forall>idx. in_shape (shape g) idx \<longrightarrow> item Z idx = item g idx"
    unfolding keeps_same_size_def by blast
  have "item Z [i, j, k, c] = item A [i, j, k]" if "i < x" "j < y" "k < z" "c < 3" for i j k c
  proof -
    have "in_shape (shape g) [i, j, k, c]" using that by (simp add: g(2) in_shape4)
    with Z(3) g(3) show ?thesis by simp
  qed
  moreover have "resampled_layer zoom order [x, y, z] A = Inr Z"
    using sh z3 g(1) fs Z(1) by (simp add: resampled_layer_def)
  ultimately show ?thesis using Z(2) g(2) by auto
qed

lemma np_max_rgb:
  assumes shZ: "shape Z = [x, y, z, 3]" and shA: "shape A = [x, y, z]"
    and items: "\<forall>i j k c. i < x \<and> j < y \<and> k < z \<and> c < 3 \<longrightarrow> item Z [i, j, k, c] = item A [i, j, k]"
  shows "np_max Z = np_max A"
proof (rule np_max_cong)
  show "set (array_items Z) = set (array_items A)"
  proof (intro set_eqI iffI)
    fix v assume "v \<in> set (array_items Z)"
    then obtain i j k c where "v = item Z [i, j, k, c]" "i < x" "j < y" "k < z" "c < 3"
      by (auto simp: set_array_items shZ in_shape4)
    with items have "v = item A [i, j, k]" "in_shape [x, y, z] [i, j, k]"
      by (simp_all add: in_shape3)
    then show "v \<in> set (array_items A)" by (auto simp: set_array_items shA)
  next
    fix v assume "v \<in> set (array_items A)"
    then obtain i j k where v: "v = item A [i, j, k]" "i < x" "j < y" "k < z"
      by (auto simp: set_array_items shA in_shape3)
    with items have "v = item Z [i, j, k, 0]" by simp
    moreover have "in_shape [x, y, z, 3] [i, j, k, 0]" using v by (simp add: in_shape4)
    ultimately show "v \<in> set (array_items Z)" by (auto simp: set_array_items shZ)
  qed
qed

lemma prepared_same_size:
  assumes zoom: "keeps_same_size zoom order"
    and sh: "shape A = [x, y, z]" and z3: "z \<noteq> 3"
    and pos: "0 < x" "0 < y" "0 < z"
  shows "\<exists>L nA. prepared_layer zoom order [x, y, z] A = Inr L \<and> normalized A = Inr nA \<and>
           shape L = [x, y, z, 3] \<and>
           (\<forall>i j k c. i < x \<and> j < y \<and> k < z \<and> c < 3 \<longrightarrow> item L [i, j, k, c] = item nA [i, j, k])"
proof -
  from resampled_same_size[OF assms] obtain Z where
    Z: "resampled_layer zoom order [x, y, z] A = Inr Z" "shape Z = [x, y, z, 3]"
    "\<forall>i j k c. i < x \<and> j < y \<and> k < z \<and> c < 3 \<longrightarrow> item Z [i, j, k, c] = item A [i, j, k]"
    by blast
  have mx: "np_max Z = np_max A" by (rule np_max_rgb[OF Z(2) sh Z(3)])
  have "in_shape (shape A) [0, 0, 0]" using pos by (simp add: sh in_shape3)
  then have "array_items A \<noteq> []"
    using set_array_items[of A] by auto
  with np_max_cases[of A] obtain m where m: "np_max A = Inr m" by auto
  have "prepared_layer zoom order [x, y, z] A = Inr (map_array (\<lambda>v. fdiv v m) Z)"
    using Z(1) mx m by (simp add: prepared_layer_def normalized_def)
  moreover have "normalized A = Inr (map_array (\<lambda>v. fdiv v m) A)"
    using m by (simp add: normalized_def)
  ultimately show ?thesis
    using Z(2,3) by (auto simp: map_array_def)
qed

lemma triple_sum_zero: "fadd (fadd (fadd (Fin 0) w) w) w = Fin 0 \<longleftrightarrow> w = Fin 0"
  by (cases w) auto

lemma composite_gray:
  assumes shL: "shape L = [x, y, z, 3]" and shb: "shape bprev = [x, y, z, 3]"
    and gray: "\<forall>i j k c. i < x \<and> j < y \<and> k < z \<and> c < 3 \<longrightarrow> item L [i, j, k, c] = item n [i, j, k]"
  shows "\<exists>b. composite bprev L = Inr b \<and> shape b = [x, y, z, 3] \<and>
     (\<forall>i j k c. i < x \<and> j < y \<and> k < z \<and> c < 3 \<longrightarrow>
        item b [i, j, k, c] =
          (if item n [i, j, k] \<noteq> Fin 0 then item n [i, j, k] else item bprev [i, j, k, c]))"
proof -
  have sum: "channel_sum L [i, j, k] = fadd (fadd (fadd (Fin 0) (item n [i, j, k]))
      (item n [i, j, k])) (item n [i, j, k])" if "i < x" "j < y" "k < z" for i j k
  proof -
    have "[0..<3] = [0, 1, 2]" by (simp add: upt_rec)
    then show ?thesis
      using gray that by (simp add: channel_sum_def shL)
  qed
  have "composite bprev L = Inr \<lparr>shape = shape bprev,
                item = (\<lambda>idx. if channel_sum L (take 3 idx) \<noteq> Fin 0
                               then item L (take 3 idx @
                                      [if shape L ! 3 = 1 then 0 else idx ! 3])
                               else item bprev idx)\<rparr>"
    by (simp add: composite_def shL shb)
  moreover have "item \<lparr>shape = shape bprev,
                item = (\<lambda>idx. if channel_sum L (take 3 idx) \<noteq> Fin 0
                               then item L (take 3 idx @
                                      [if shape L ! 3 = 1 then 0 else idx ! 3])
                               else item bprev idx)\<rparr> [i, j, k, c] =
          (if item n [i, j, k] \<noteq> Fin 0 then item n [i, j, k] else item bprev [i, j, k, c])"
    if "i < x" "j < y" "k < z" "c < 3" for i j k c
    using that gray by (simp add: sum triple_sum_zero shL)
  ultimately show ?thesis using shb by auto
qed

lemma normalized_single_peak:
  assumes sh: "shape A = [x, y, z]" and p: "in_shape [x, y, z] p"
    and Ap: "item A p = Fin v" and v: "0 < v"
    and Aq: "\<forall>q. in_shape [x, y, z] q \<and> q \<noteq> p \<longrightarrow> item A q = Fin 0"
    and n: "normalized A = Inr nA"
  shows "item nA p = Fin 1 \<and> (\<forall>q. in_shape [x, y, z] q \<and> q \<noteq> p \<longrightarrow> item nA q = Fin 0)"
proof -
  have "Fin v \<in> set (array_items A)"
    using p Ap by (auto simp: set_array_items sh intro!: exI[of _ p])
  moreover have "fmax w (Fin v) = Fin v" if "w \<in> set (array_items A)" for w
  proof -
    from that obtain q where q: "w = item A q" "in_shape [x, y, z] q"
      by (auto simp: set_array_items sh)
    with Ap Aq have "w = Fin v \<or> w = Fin 0" by (cases "q = p") auto
    with v show ?thesis by auto
  qed
  ultimately have "np_max A = Inr (Fin v)" by (rule np_max_eq)
  with n have "nA = map_array (\<lambda>w. fdiv w (Fin v)) A" by (simp add: normalized_def)
  with Ap Aq v show ?thesis by (simp add: map_array_def)
qed

lemma two_layers_run:
  assumes list: "vol_list s = [a, b]" and wf: "a < fresh s" "b < fresh s"
    and zoom: "keeps_same_size zoom order"
    and shA: "shape (arrays s a) = [x, y, z]" and shB: "shape (arrays s b) = [x, y, z]"
    and z3: "z \<noteq> 3" and pos: "0 < x" "0 < y" "0 < z"
  shows "\<exists>s' out nA nB. normalized (arrays s a) = Inr nA \<and> normalized (arrays s b) = Inr nB \<and>
     overlap_volumes zoom rgb order s =
       (Inr (if rgb then fresh s else fresh s'), 
        if rgb then s'
        else s'\<lparr>arrays := (arrays s')(fresh s' := first_channel (arrays s' (fresh s))),
                fresh := Suc (fresh s')\<rparr>) \<and>
     arrays s' (fresh s) = out \<and> shape out = [x, y, z, 3] \<and>
     (\<forall>i j k c. i < x \<and> j < y \<and> k < z \<and> c < 3 \<longrightarrow>
        item out [i, j, k, c] =
          (if item nA [i, j, k] \<noteq> Fin 0 then item nA [i, j, k] else item nB [i, j, k]))"
proof -
  let ?ms = "[x, y, z]"
  let ?bk = "fresh s"
  let ?zeros = "full (?ms @ [3]) (Fin 0) :: fl ndarray"
  let ?s1 = "s\<lparr>arrays := (arrays s)(?bk := ?zeros), fresh := Suc ?bk\<rparr>"
  have ms: "max_size_loop [0, 0, 0] (map (\<lambda>a. shape (arrays s a)) (vol_list s)) = Inr ?ms"
    by (simp add: list shA shB raise_max3)
  from prepared_same_size[OF zoom shA z3 pos] obtain LA nA where
    LA: "prepared_layer zoom order ?ms (arrays s a) = Inr LA" and
    nA: "normalized (arrays s a) = Inr nA" and shLA: "shape LA = [x, y, z, 3]" and
    grayA: "\<forall>i j k c. i < x \<and> j < y \<and> k < z \<and> c < 3 \<longrightarrow> item LA [i, j, k, c] = item nA [i, j, k]"
    by blast
  from prepared_same_size[OF zoom shB z3 pos] obtain LB nB where
    LB: "prepared_layer zoom order ?ms (arrays s b) = Inr LB" and
    nB: "normalized (arrays s b) = Inr nB" and shLB: "shape LB = [x, y, z, 3]" and
    grayB: "\<forall>i j k c. i < x \<and> j < y \<and> k < z \<and> c < 3 \<longrightarrow> item LB [i, j, k, c] = item nB [i, j, k]"
    by blast
  \<comment> \<open>first iteration: the last element, \<open>b\<close>\<close>
  let ?t0 = "?s1\<lparr>vol_list := [a]\<rparr>"
  have bk0: "?bk < fresh ?t0" by simp
  have b0: "arrays ?t0 b = arrays s b" "arrays ?t0 ?bk = ?zeros" using wf by simp_all
  have shz: "shape ?zeros = [x, y, z, 3]" by (simp add: full_def)
  from composite_gray[OF shLB shz grayB] obtain b1 where
    b1: "composite ?zeros LB = Inr b1" "shape b1 = [x, y, z, 3]"
    "\<forall>i j k c. i < x \<and> j < y \<and> k < z \<and> c < 3 \<longrightarrow>
        item b1 [i, j, k, c] =
          (if item nB [i, j, k] \<noteq> Fin 0 then item nB [i, j, k] else item ?zeros [i, j, k, c])"
    by blast
  obtain r1 t1 where p1: "process_layer zoom order ?ms ?bk b ?t0 = (r1, t1)"
    by (cases "process_layer zoom order ?ms ?bk b ?t0") auto
  from process_layer_result[OF bk0, of zoom order ?ms b] p1 LB b1(1) b0
  have r1: "r1 = Inr ()" and back1: "arrays t1 ?bk = b1" by simp_all
  from process_layer_frame[OF p1] have f1: "Suc ?bk \<le> fresh t1" "vol_list t1 = [a]"
    "\<forall>p < Suc ?bk. p \<noteq> ?bk \<longrightarrow> arrays t1 p = arrays ?t0 p" by simp_all
  from f1(3) wf(1) have a1: "arrays t1 a = arrays s a" by simp
  \<comment> \<open>second iteration: the first element, \<open>a\<close>\<close>
  let ?t1 = "t1\<lparr>vol_list := []\<rparr>"
  have bk1: "?bk < fresh ?t1" using f1(1) by simp
  from composite_gray[OF shLA b1(2) grayA] obtain b2 where
    b2: "composite b1 LA = Inr b2" "shape b2 = [x, y, z, 3]"
    "\<forall>i j k c. i < x \<and> j < y \<and> k < z \<and> c < 3 \<longrightarrow>
        item b2 [i, j, k, c] =
          (if item nA [i, j, k] \<noteq> Fin 0 then item nA [i, j, k] else item b1 [i, j, k, c])"
    by blast
  obtain r2 t2 where p2: "process_layer zoom order ?ms ?bk a ?t1 = (r2, t2)"
    by (cases "process_layer zoom order ?ms ?bk a ?t1") auto
  from process_layer_result[OF bk1, of zoom order ?ms a] p2 LA b2(1) a1 back1
  have r2: "r2 = Inr ()" and back2: "arrays t2 ?bk = b2" by simp_all
  from process_layer_frame[OF p2] have f2: "vol_list t2 = []" by simp
  \<comment> \<open>the loop\<close>
  have "overlap_loop zoom order ?ms ?bk ?s1 = overlap_loop zoom order ?ms ?bk t1"
    using p1 r1 by (simp add: overlap_loop_pop list)
  also have "\<dots> = overlap_loop zoom order ?ms ?bk t2"
    using p2 r2 f1(2) by (simp add: overlap_loop_pop)
  also have "\<dots> = (Inr (), t2)"
    using f2 by (simp add: overlap_loop_Nil)
  finally have loop: "overlap_loop zoom order ?ms ?bk ?s1 = (Inr (), t2)" .
  have run: "overlap_volumes zoom rgb order s =
       (Inr (if rgb then fresh s else fresh t2), 
        if rgb then t2
        else t2\<lparr>arrays := (arrays t2)(fresh t2 := first_channel (arrays t2 (fresh s))),
                fresh := Suc (fresh t2)\<rparr>)"
    using ms loop by (simp add: overlap_volumes_def alloc_def)
  have vals: "item b2 [i, j, k, c] =
          (if item nA [i, j, k] \<noteq> Fin 0 then item nA [i, j, k] else item nB [i, j, k])"
    if "i < x" "j < y" "k < z" "c < 3" for i j k c
    using that b2(3) b1(3) by (simp add: full_def)
  from nA nB run back2 b2(2) vals show ?thesis by blast
qed

lemma unit_factors_shape:
  "list_all (\<lambda>f. f = 1) fs \<Longrightarrow> length fs = length sh \<Longrightarrow>
     map (\<lambda>(n, f). nat (round (real n * f))) (zip sh fs) = sh"
proof (induction sh arbitrary: fs)
  case Nil
  then show ?case by simp
next
  case (Cons n ns)
  then obtain f fs' where "fs = f # fs'" by (cases fs) auto
  with Cons show ?case by simp
qed

lemma unit_factors_index:
  "list_all (\<lambda>f. f = 1) fs \<Longrightarrow> length fs = length idx \<Longrightarrow>
     map (\<lambda>(i, f). nat \<lfloor>real i / f\<rfloor>) (zip idx fs) = idx"
proof (induction idx arbitrary: fs)
  case Nil
  then show ?case by simp
next
  case (Cons n ns)
  then obtain f fs' where "fs = f # fs'" by (cases fs) auto
  with Cons show ?case by simp
qed

lemma nearest_zoom_keeps: "keeps_same_size nearest_zoom order"
  unfolding keeps_same_size_def
proof (intro allI impI)
  fix a :: "fl ndarray" and fs :: "real list"
  assume A: "length fs = length (shape a) \<and> list_all (\<lambda>f. f = 1) fs"
  then have sh: "map (\<lambda>(n, f). nat (round (real n * f))) (zip (shape a) fs) = shape a"
    by (simp add: unit_factors_shape)
  have it: "map (\<lambda>(i, f). nat \<lfloor>real i / f\<rfloor>) (zip idx fs) = idx"
    if "in_shape (shape a) idx" for idx
    using that A by (simp add: unit_factors_index in_shape_def)
  show "\<exists>z. nearest_zoom a fs order = Inr z \<and> shape z = shape a \<and>
             (\<forall>idx. in_shape (shape a) idx \<longrightarrow> item z idx = item a idx)"
    using A sh it by (simp add: nearest_zoom_def)
qed

lemma zero_volume_run:
  "fst (overlap_volumes nearest_zoom True 0 (state_of [full [1, 1, 1] (Fin 0)])) = Inr 1 \<and>
   shape (arrays (snd (overlap_volumes nearest_zoom True 0
       (state_of [full [1, 1, 1] (Fin 0)]))) 1) = [1, 1, 1, 3]"
  by (simp add: overlay_eval)

lemma zero_foreground_nan:
  assumes ret: "overlap_volumes zoom rgb order s = (Inr r, s')"
    and first: "vol_list s = a # rest" and a: "a < fresh s"
    and ms: "max_size_loop [0, 0, 0] (map (\<lambda>a. shape (arrays s a)) (vol_list s)) = Inr ms"
    and z: "resampled_layer zoom order ms (arrays s a) = Inr z"
    and zero: "\<forall>idx. in_shape (shape z) idx \<longrightarrow> item z idx = Fin 0"
  shows "\<forall>idx. in_shape (shape (arrays s' r)) idx \<longrightarrow> item (arrays s' r) idx = NaN"
proof -
  let ?s1 = "s\<lparr>arrays := (arrays s)(fresh s := full (ms @ [3]) (Fin 0)), fresh := Suc (fresh s)\<rparr>"
  from overlap_volumes_Inr[OF ret] ms obtain s2 where
    l: "overlap_loop zoom order ms (fresh s) ?s1 = (Inr (), s2)" and
    r: "if rgb then r = fresh s \<and> s' = s2
      else r = fresh s2 \<and>
           s' = s2\<lparr>arrays := (arrays s2)(fresh s2 := first_channel (arrays s2 (fresh s))),
                   fresh := Suc (fresh s2)\<rparr>"
    by auto
  from max_size_loop_length[OF ms] obtain a0 a1 a2 where msv: "ms = [a0, a1, a2]" by blast
  have "vol_list ?s1 = a # rest" "fresh s < fresh ?s1" "a < fresh ?s1" "a \<noteq> fresh s"
    using first a by simp_all
  from overlap_loop_first[OF l this] a obtain bprev L where
    L: "prepared_layer zoom order ms (arrays s a) = Inr L" and
    shb: "shape bprev = [a0, a1, a2, 3]" and
    c: "composite bprev L = Inr (arrays s2 (fresh s))"
    by (auto simp: full_def msv)
  from L z have n: "normalized z = Inr L" by (simp add: prepared_layer_def)
  from normalized_zero[OF n zero] have
    nan: "\<forall>idx. in_shape (shape L) idx \<longrightarrow> item L idx = NaN" by simp
  have bnan: "item (arrays s2 (fresh s)) idx = NaN" if "in_shape [a0, a1, a2, 3] idx" for idx
    using nan_layer_composite[OF c shb nan that] .
  have shback: "shape (arrays s2 (fresh s)) = [a0, a1, a2, 3]"
    using composite_Inr(4)[OF c] shb by simp
  show ?thesis
  proof (cases rgb)
    case True
    with r shback bnan show ?thesis by simp
  next
    case False
    with r have out: "arrays s' r = first_channel (arrays s2 (fresh s))" by simp
    show ?thesis
    proof (intro allI impI)
      fix idx assume "in_shape (shape (arrays s' r)) idx"
      then have "in_shape [a0, a1, a2] idx" by (simp add: out first_channel_def shback)
      then obtain i j k where "idx = [i, j, k]" "i < a0" "j < a1" "k < a2"
        unfolding in_shape3 by blast
      then have "in_shape [a0, a1, a2, 3] (idx @ [0])" unfolding in_shape4 by simp
      from bnan[OF this] show "item (arrays s' r) idx = NaN"
        by (simp add: out first_channel_def)
    qed
  qed
qed

lemma zero_layer_step:
  assumes bk: "bk < fresh t"
    and z: "resampled_layer zoom order ms (arrays t l) = Inr z"
    and shz: "shape z = [a0, a1, a2, 3]" and shb: "shape (arrays t bk) = [a0, a1, a2, 3]"
    and pos: "0 < a0" "0 < a1" "0 < a2"
    and zero: "\<forall>idx. in_shape (shape z) idx \<longrightarrow> item z idx = Fin 0"
  shows "fst (process_layer zoom order ms bk l t) = Inr () \<and>
     (\<forall>idx. in_shape [a0, a1, a2, 3] idx \<longrightarrow>
        item (arrays (snd (process_layer zoom order ms bk l t)) bk) idx = NaN)"
proof -
  have "in_shape (shape z) [0, 0, 0, 0]" using pos by (simp add: shz in_shape4)
  with zero have "Fin 0 \<in> set (array_items z)"
    by (auto simp: set_array_items intro!: exI[of _ "[0, 0, 0, 0]"])
  moreover have "fmax w (Fin 0) = Fin 0" if "w \<in> set (array_items z)" for w
    using that zero by (auto simp: set_array_items)
  ultimately have "np_max z = Inr (Fin 0)" by (rule np_max_eq)
  then have n: "normalized z = Inr (map_array (\<lambda>v. fdiv v (Fin 0)) z)"
    by (simp add: normalized_def)
  let ?L = "map_array (\<lambda>v. fdiv v (Fin 0)) z"
  from n z have L: "prepared_layer zoom order ms (arrays t l) = Inr ?L"
    by (simp add: prepared_layer_def)
  from normalized_zero[OF n zero] have shL: "shape ?L = [a0, a1, a2, 3]"
    and nan: "\<forall>idx. in_shape (shape ?L) idx \<longrightarrow> item ?L idx = NaN"
    by (simp_all add: shz)
  obtain b where c: "composite (arrays t bk) ?L = Inr b"
    using shL shb by (simp add: composite_def)
  from process_layer_result[OF bk, of zoom order ms l] L c
  have "fst (process_layer zoom order ms bk l t) = Inr ()"
    and "arrays (snd (process_layer zoom order ms bk l t)) bk = b" by simp_all
  moreover have "item b idx = NaN" if "in_shape [a0, a1, a2, 3] idx" for idx
    by (rule nan_layer_composite[OF c shb nan that])
  ultimately show ?thesis by simp
qed

section \<open>Claims about the overlay\<close>

lemma two_volumes_run:
  "fst (overlap_volumes nearest_zoom False 0
          (state_of [from_list [1, 1, 1] [Fin 2], from_list [1, 1, 2] [Fin 0, Fin 4]]))
     = Inr 7"
  by (simp add: overlay_eval)



text \<open>
  C10: when \<open>overlap_volumes\<close> returns, the list object of the caller is empty, and
  every array that existed before the call, so every element the list had, is what it
  was: the loop writes only into arrays made during the call.
\<close>

theorem overlap_volumes_consumes_list:
  assumes "overlap_volumes zoom rgb order s = (Inr r, s')"
  shows "length (vol_list s') = 0 \<and> (\<forall>p < fresh s. arrays s' p = arrays s p)"
proof -
  from overlap_volumes_Inr[OF assms] obtain ms s2 where
    l: "overlap_loop zoom order ms (fresh s)
       (s\<lparr>arrays := (arrays s)(fresh s := full (ms @ [3]) (Fin 0)), fresh := Suc (fresh s)\<rparr>)
       = (Inr (), s2)" and
    r: "if rgb then r = fresh s \<and> s' = s2
      else r = fresh s2 \<and>
           s' = s2\<lparr>arrays := (arrays s2)(fresh s2 := first_channel (arrays s2 (fresh s))),
                   fresh := Suc (fresh s2)\<rparr>"
    by blast
  from overlap_loop_frame[OF l] have f: "Suc (fresh s) \<le> fresh s2"
    "\<forall>p < Suc (fresh s). p \<noteq> fresh s \<longrightarrow>
        arrays s2 p = ((arrays s)(fresh s := full (ms @ [3]) (Fin 0))) p"
    "vol_list s2 = []"
    by simp_all
  from f(2) have keep: "\<forall>p < fresh s. arrays s2 p = arrays s p" by auto
  show ?thesis
  proof (cases rgb)
    case True
    with r f keep show ?thesis by simp
  next
    case False
    with r f keep show ?thesis by auto
  qed
qed

theorem overlap_volumes_consumes_list_witness:
  "fst (overlap_volumes nearest_zoom False 0
          (state_of [from_list [1, 1, 1] [Fin 2], from_list [1, 1, 2] [Fin 0, Fin 4]])) = Inr 7 \<and>
   length (vol_list (state_of [from_list [1, 1, 1] [Fin 2], from_list [1, 1, 2] [Fin 0, Fin 4]]))
     = 2 \<and>
   length (vol_list (snd (overlap_volumes nearest_zoom False 0
          (state_of [from_list [1, 1, 1] [Fin 2], from_list [1, 1, 2] [Fin 0, Fin 4]])))) = 0 \<and>
   arrays (snd (overlap_volumes nearest_zoom False 0
          (state_of [from_list [1, 1, 1] [Fin 2], from_list [1, 1, 2] [Fin 0, Fin 4]]))) 0
     = from_list [1, 1, 1] [Fin 2] \<and>
   arrays (snd (overlap_volumes nearest_zoom False 0
          (state_of [from_list [1, 1, 1] [Fin 2], from_list [1, 1, 2] [Fin 0, Fin 4]]))) 1
     = from_list [1, 1, 2] [Fin 0, Fin 4]"
proof -
  let ?s = "state_of [from_list [1, 1, 1] [Fin 2], from_list [1, 1, 2] [Fin 0, Fin 4]]"
  have run: "overlap_volumes nearest_zoom False 0 ?s
      = (Inr 7, snd (overlap_volumes nearest_zoom False 0 ?s))"
    using two_volumes_run by (simp add: prod_eq_iff)
  have fr: "fresh ?s = 2" and len: "length (vol_list ?s) = 2"
    and a0: "arrays ?s 0 = from_list [1, 1, 1] [Fin 2]"
    and a1: "arrays ?s 1 = from_list [1, 1, 2] [Fin 0, Fin 4]"
    by (simp_all add: state_of_def)
  from overlap_volumes_consumes_list[OF run] fr
  have "length (vol_list (snd (overlap_volumes nearest_zoom False 0 ?s))) = 0"
    and "arrays (snd (overlap_volumes nearest_zoom False 0 ?s)) 0 = arrays ?s 0"
    and "arrays (snd (overlap_volumes nearest_zoom False 0 ?s)) 1 = arrays ?s 1"
    by simp_all
  with two_volumes_run len a0 a1 show ?thesis by simp
qed

text \<open>
  C7, as the code has it.  The loop takes the last element of the list first, and a
  layer that has been processed overwrites a voxel of \<open>back\<close> exactly where the channel
  sum of the prepared layer (RGB, resampled, divided by its maximum) differs from zero,
  and leaves it as it is elsewhere.  For two volumes \<open>[A, B]\<close> of one shape
  \<open>(x, y, z)\<close> with \<open>z \<noteq> 3\<close>, where \<open>A\<close> is positive at the voxel \<open>p\<close> and zero at
  every other voxel, and a \<open>zoom\<close> that keeps an array whose size is already the
  target's, the call returns, and the result is the self-max-normalized value of \<open>A\<close> at
  \<open>p\<close> and the self-max-normalized value of \<open>B\<close> at every other voxel, in every
  channel.
\<close>

theorem overlap_back_to_front:
  "(vol_list t = xs @ [l] \<longrightarrow>
      overlap_loop zoom order ms bk t =
        (case process_layer zoom order ms bk l (t\<lparr>vol_list := xs\<rparr>) of
           (Inl e, t') \<Rightarrow> (Inl e, t')
         | (Inr u, t') \<Rightarrow> overlap_loop zoom order ms bk t'))
   \<and> (bk < fresh t \<and> process_layer zoom order ms bk l t = (Inr u, t') \<longrightarrow>
        (\<exists>L. prepared_layer zoom order ms (arrays t l) = Inr L \<and>
           (\<forall>idx. item (arrays t' bk) idx =
              (if channel_sum L (take 3 idx) \<noteq> Fin 0
               then item L (take 3 idx @ [if shape L ! 3 = 1 then 0 else idx ! 3])
               else item (arrays t bk) idx))))
   \<and> (vol_list s = [a, b] \<and> a < fresh s \<and> b < fresh s \<and> keeps_same_size zoom order \<and>
        shape (arrays s a) = [x, y, z] \<and> shape (arrays s b) = [x, y, z] \<and> z \<noteq> 3 \<and>
        in_shape [x, y, z] p \<and> item (arrays s a) p = Fin v \<and> 0 < v \<and>
        (\<forall>q. in_shape [x, y, z] q \<and> q \<noteq> p \<longrightarrow> item (arrays s a) q = Fin 0) \<longrightarrow>
        (\<exists>r s' nA nB.
           overlap_volumes zoom rgb order s = (Inr r, s') \<and>
           normalized (arrays s a) = Inr nA \<and> normalized (arrays s b) = Inr nB \<and>
           (if rgb
            then \<forall>c<3. item (arrays s' r) (p @ [c]) = item nA p \<and>
                   (\<forall>q. in_shape [x, y, z] q \<and> q \<noteq> p \<longrightarrow>
                        item (arrays s' r) (q @ [c]) = item nB q)
            else item (arrays s' r) p = item nA p \<and>
                   (\<forall>q. in_shape [x, y, z] q \<and> q \<noteq> p \<longrightarrow>
                        item (arrays s' r) q = item nB q))))"
proof (intro conjI impI)
  assume "vol_list t = xs @ [l]"
  then show "overlap_loop zoom order ms bk t =
        (case process_layer zoom order ms bk l (t\<lparr>vol_list := xs\<rparr>) of
           (Inl e, t') \<Rightarrow> (Inl e, t')
         | (Inr u, t') \<Rightarrow> overlap_loop zoom order ms bk t')"
    by (simp add: overlap_loop_pop)
next
  assume A: "bk < fresh t \<and> process_layer zoom order ms bk l t = (Inr u, t')"
  then have bk: "bk < fresh t" and run: "process_layer zoom order ms bk l t = (Inr u, t')"
    by simp_all
  from process_layer_result[OF bk, of zoom order ms l] run
  obtain L b where L: "prepared_layer zoom order ms (arrays t l) = Inr L"
    and c: "composite (arrays t bk) L = Inr b" and b: "arrays t' bk = b"
    by (auto split: sum.splits)
  from composite_Inr(5)[OF c] b L
  show "\<exists>L. prepared_layer zoom order ms (arrays t l) = Inr L \<and>
           (\<forall>idx. item (arrays t' bk) idx =
              (if channel_sum L (take 3 idx) \<noteq> Fin 0
               then item L (take 3 idx @ [if shape L ! 3 = 1 then 0 else idx ! 3])
               else item (arrays t bk) idx))"
    by auto
next
  assume H: "vol_list s = [a, b] \<and> a < fresh s \<and> b < fresh s \<and> keeps_same_size zoom order \<and>
        shape (arrays s a) = [x, y, z] \<and> shape (arrays s b) = [x, y, z] \<and> z \<noteq> 3 \<and>
        in_shape [x, y, z] p \<and> item (arrays s a) p = Fin v \<and> 0 < v \<and>
        (\<forall>q. in_shape [x, y, z] q \<and> q \<noteq> p \<longrightarrow> item (arrays s a) q = Fin 0)"
  then have list: "vol_list s = [a, b]" and wf: "a < fresh s" "b < fresh s"
    and zoom: "keeps_same_size zoom order"
    and shA: "shape (arrays s a) = [x, y, z]" and shB: "shape (arrays s b) = [x, y, z]"
    and z3: "z \<noteq> 3" and p: "in_shape [x, y, z] p"
    and Ap: "item (arrays s a) p = Fin v" and v: "0 < v"
    and Aq: "\<forall>q. in_shape [x, y, z] q \<and> q \<noteq> p \<longrightarrow> item (arrays s a) q = Fin 0"
    by blast+
  from p obtain i0 j0 k0 where p3: "p = [i0, j0, k0]" "i0 < x" "j0 < y" "k0 < z"
    unfolding in_shape3 by blast
  then have pos: "0 < x" "0 < y" "0 < z" by simp_all
  from two_layers_run[OF list wf zoom shA shB z3 pos, of rgb] obtain s2 out nA nB where
    nA: "normalized (arrays s a) = Inr nA" and nB: "normalized (arrays s b) = Inr nB" and
    run: "overlap_volumes zoom rgb order s =
       (Inr (if rgb then fresh s else fresh s2), 
        if rgb then s2
        else s2\<lparr>arrays := (arrays s2)(fresh s2 := first_channel (arrays s2 (fresh s))),
                fresh := Suc (fresh s2)\<rparr>)" and
    out: "arrays s2 (fresh s) = out" and
    vals: "\<forall>i j k c. i < x \<and> j < y \<and> k < z \<and> c < 3 \<longrightarrow>
        item out [i, j, k, c] =
          (if item nA [i, j, k] \<noteq> Fin 0 then item nA [i, j, k] else item nB [i, j, k])"
    by blast
  from normalized_single_peak[OF shA p Ap v Aq nA] have
    peak: "item nA p = Fin 1" and
    rest: "\<forall>q. in_shape [x, y, z] q \<and> q \<noteq> p \<longrightarrow> item nA q = Fin 0" by simp_all
  have at_p: "item out (p @ [c]) = item nA p" if "c < 3" for c
    using vals p3 that peak by simp
  have at_q: "item out (q @ [c]) = item nB q" if "in_shape [x, y, z] q" "q \<noteq> p" "c < 3" for q c
  proof -
    from that(1) obtain i j k where q3: "q = [i, j, k]" "i < x" "j < y" "k < z"
      unfolding in_shape3 by blast
    from rest that have "item nA q = Fin 0" by blast
    with vals q3 that(3) show ?thesis by simp
  qed
  let ?r = "if rgb then fresh s else fresh s2"
  let ?s' = "if rgb then s2
        else s2\<lparr>arrays := (arrays s2)(fresh s2 := first_channel (arrays s2 (fresh s))),
                fresh := Suc (fresh s2)\<rparr>"
  have res: "if rgb
            then \<forall>c<3. item (arrays ?s' ?r) (p @ [c]) = item nA p \<and>
                   (\<forall>q. in_shape [x, y, z] q \<and> q \<noteq> p \<longrightarrow>
                        item (arrays ?s' ?r) (q @ [c]) = item nB q)
            else item (arrays ?s' ?r) p = item nA p \<and>
                   (\<forall>q. in_shape [x, y, z] q \<and> q \<noteq> p \<longrightarrow>
                        item (arrays ?s' ?r) q = item nB q)"
  proof (cases rgb)
    case True
    with out at_p at_q show ?thesis by simp
  next
    case False
    with out at_p[of 0] at_q[of _ 0] show ?thesis by (simp add: first_channel_def)
  qed
  from run nA nB res
  show "\<exists>r s' nA nB.
           overlap_volumes zoom rgb order s = (Inr r, s') \<and>
           normalized (arrays s a) = Inr nA \<and> normalized (arrays s b) = Inr nB \<and>
           (if rgb
            then \<forall>c<3. item (arrays s' r) (p @ [c]) = item nA p \<and>
                   (\<forall>q. in_shape [x, y, z] q \<and> q \<noteq> p \<longrightarrow>
                        item (arrays s' r) (q @ [c]) = item nB q)
            else item (arrays s' r) p = item nA p \<and>
                   (\<forall>q. in_shape [x, y, z] q \<and> q \<noteq> p \<longrightarrow>
                        item (arrays s' r) q = item nB q))"
    by blast
qed

lemma negative_foreground_run:
  "(case overlap_volumes nearest_zoom True 0
          (state_of [from_list [1, 1, 2] [Fin (- 1), Fin 0],
                     from_list [1, 1, 2] [Fin 0, Fin 1]]) of
      (r, s') \<Rightarrow> r = Inr 2 \<and> item (arrays s' 2) [0, 0, 1, 0] = NaN)"
  by (simp add: overlay_eval)

text \<open>
  As C7 is stated, with \<open>A\<close> merely nonzero at \<open>p\<close>, the claim fails: for
  \<open>A = [-1, 0]\<close> the maximum of \<open>A\<close> is \<open>0\<close>, the division makes \<open>0/0\<close> a NaN at the
  other voxel, a NaN differs from zero, and the result there is NaN where the normalized
  \<open>B\<close> has \<open>1\<close>.  Apart from that, single-channel volumes whose last axis has length
  three are taken for RGB and not expanded, and \<open>zoom\<close> rejects its four factors.
\<close>

theorem overlap_negative_foreground_counterexample:
  "fst (overlap_volumes nearest_zoom True 0
          (state_of [from_list [1, 1, 2] [Fin (- 1), Fin 0],
                     from_list [1, 1, 2] [Fin 0, Fin 1]])) = Inr 2 \<and>
   item (arrays (snd (overlap_volumes nearest_zoom True 0
          (state_of [from_list [1, 1, 2] [Fin (- 1), Fin 0],
                     from_list [1, 1, 2] [Fin 0, Fin 1]]))) 2) [0, 0, 1, 0] = NaN \<and>
   normalized_at (from_list [1, 1, 2] [Fin 0, Fin 1]) [0, 0, 1] = Inr (Fin 1) \<and>
   fst (overlap_volumes nearest_zoom True 0
          (state_of [from_list [1, 1, 3] [Fin 1, Fin 0, Fin 0],
                     from_list [1, 1, 3] [Fin 0, Fin 1, Fin 1]])) = Inl RuntimeError"
proof -
  have three: "fst (overlap_volumes nearest_zoom True 0
          (state_of [from_list [1, 1, 3] [Fin 1, Fin 0, Fin 0],
                     from_list [1, 1, 3] [Fin 0, Fin 1, Fin 1]])) = Inl RuntimeError"
    by (simp add: overlay_eval)
  have "normalized_at (from_list [1, 1, 2] [Fin 0, Fin 1]) [0, 0, 1] = Inr (Fin 1)"
    by (simp add: normalized_at_def normalized_def np_max_def array_items_def from_list_def
        map_array_def upt_rec)
  with negative_foreground_run three show ?thesis
    by (simp add: case_prod_unfold)
qed

theorem overlap_back_to_front_witness:
  "\<exists>r s'. overlap_volumes nearest_zoom True 0
       (state_of [from_list [1, 2, 2] [Fin 2, Fin 0, Fin 0, Fin 0],
                  from_list [1, 2, 2] [Fin 0, Fin 4, Fin 2, Fin 1]]) = (Inr r, s') \<and>
     item (arrays s' r) [0, 0, 0, 0] = Fin 1 \<and> item (arrays s' r) [0, 0, 0, 2] = Fin 1 \<and>
     item (arrays s' r) [0, 0, 1, 0] = Fin 1 \<and> item (arrays s' r) [0, 1, 0, 1] = Fin (1 / 2) \<and>
     item (arrays s' r) [0, 1, 1, 2] = Fin (1 / 4)"
proof -
  let ?A = "from_list [1, 2, 2] [Fin 2, Fin 0, Fin 0, Fin 0]"
  let ?B = "from_list [1, 2, 2] [Fin 0, Fin 4, Fin 2, Fin 1]"
  let ?s = "state_of [?A, ?B]"
  let ?p = "[0, 0, 0] :: nat list"
  have Aq: "item (arrays ?s 0) q = Fin 0" if "in_shape [1, 2, 2] q" "q \<noteq> ?p" for q
  proof -
    from that(1) obtain i j k where q: "q = [i, j, k]" "i < 1" "j < 2" "k < 2"
      unfolding in_shape3 by auto
    then have "i = 0" "j = 0 \<or> j = 1" "k = 0 \<or> k = 1" by auto
    with q(1) that(2) show ?thesis
      by (auto simp: state_of_def from_list_def)
  qed
  have H: "vol_list ?s = [0, 1] \<and> 0 < fresh ?s \<and> 1 < fresh ?s \<and> keeps_same_size nearest_zoom 0 \<and>
        shape (arrays ?s 0) = [1, 2, 2] \<and> shape (arrays ?s 1) = [1, 2, 2] \<and> (2 :: nat) \<noteq> 3 \<and>
        in_shape [1, 2, 2] ?p \<and> item (arrays ?s 0) ?p = Fin 2 \<and> (0 :: real) < 2 \<and>
        (\<forall>q. in_shape [1, 2, 2] q \<and> q \<noteq> ?p \<longrightarrow> item (arrays ?s 0) q = Fin 0)"
    using Aq by (simp add: state_of_def from_list_def nearest_zoom_keeps in_shape3 upt_rec)
  from overlap_back_to_front[where s = ?s and a = 0 and b = 1 and zoom = nearest_zoom
      and order = 0 and x = 1 and y = 2 and z = 2 and p = ?p and v = 2 and rgb = True] H
  obtain r s' nA nB where
    run: "overlap_volumes nearest_zoom True 0 ?s = (Inr r, s')" and
    nA: "normalized (arrays ?s 0) = Inr nA" and nB: "normalized (arrays ?s 1) = Inr nB" and
    vals: "\<forall>c<3. item (arrays s' r) (?p @ [c]) = item nA ?p \<and>
                   (\<forall>q. in_shape [1, 2, 2] q \<and> q \<noteq> ?p \<longrightarrow>
                        item (arrays s' r) (q @ [c]) = item nB q)"
    by (elim conjE impE exE) (simp_all only: if_True, blast)
  have nAv: "nA = map_array (\<lambda>v. fdiv v (Fin 2)) ?A"
    using nA by (simp add: normalized_def np_max_def array_items_def state_of_def
        from_list_def upt_rec)
  have nBv: "nB = map_array (\<lambda>v. fdiv v (Fin 4)) ?B"
    using nB by (simp add: normalized_def np_max_def array_items_def state_of_def
        from_list_def upt_rec)
  have ins: "in_shape [1, 2, 2] [0, 0, 1]" "in_shape [1, 2, 2] [0, 1, 0]"
    "in_shape [1, 2, 2] [0, 1, 1]" by (simp_all add: in_shape3)
  have Vp: "item (arrays s' r) (?p @ [c]) = item nA ?p" if "c < 3" for c
    using vals that by simp
  have Vq: "item (arrays s' r) (q @ [c]) = item nB q"
    if "c < 3" "in_shape [1, 2, 2] q" "q \<noteq> ?p" for c q
  proof -
    from vals that(1) have "\<forall>q. in_shape [1, 2, 2] q \<and> q \<noteq> ?p \<longrightarrow>
                        item (arrays s' r) (q @ [c]) = item nB q" by simp
    with that(2,3) show ?thesis by simp
  qed
  have v0: "item (arrays s' r) (?p @ [0]) = item nA ?p"
    and v2: "item (arrays s' r) (?p @ [2]) = item nA ?p"
    by (rule Vp, simp)+
  have q0: "item (arrays s' r) ([0, 0, 1] @ [0]) = item nB [0, 0, 1]"
    by (rule Vq) (simp_all add: in_shape3)
  have q1: "item (arrays s' r) ([0, 1, 0] @ [1]) = item nB [0, 1, 0]"
    by (rule Vq) (simp_all add: in_shape3)
  have q2: "item (arrays s' r) ([0, 1, 1] @ [2]) = item nB [0, 1, 1]"
    by (rule Vq) (simp_all add: in_shape3)
  from v0 v2 q0 q1 q2 have "item (arrays s' r) [0, 0, 0, 0] = Fin 1"
    "item (arrays s' r) [0, 0, 0, 2] = Fin 1"
    "item (arrays s' r) [0, 0, 1, 0] = Fin 1" "item (arrays s' r) [0, 1, 0, 1] = Fin (1 / 2)"
    "item (arrays s' r) [0, 1, 1, 2] = Fin (1 / 4)"
    by (simp_all add: nAv nBv map_array_def from_list_def)
  with run show ?thesis by blast
qed

text \<open>
  C9, as the code has it: there is no check of the maximum.  A layer that is all zero
  after resampling has maximum \<open>0\<close>; processing it raises nothing, the division turns
  every item into NaN, every channel sum is NaN and differs from zero, and so the layer
  overwrites every voxel of \<open>back\<close> with NaN.  When the first element of the list (the
  foreground, processed last) is such a layer and the call returns, the returned volume
  is NaN at every index.
\<close>

theorem zero_layer_propagates_nan:
  "(bk < fresh t \<and> resampled_layer zoom order ms (arrays t l) = Inr z \<and>
    shape z = [a0, a1, a2, 3] \<and> shape (arrays t bk) = [a0, a1, a2, 3] \<and>
    0 < a0 \<and> 0 < a1 \<and> 0 < a2 \<and>
    (\<forall>idx. in_shape (shape z) idx \<longrightarrow> item z idx = Fin 0) \<longrightarrow>
      fst (process_layer zoom order ms bk l t) = Inr () \<and>
      (\<forall>idx. in_shape [a0, a1, a2, 3] idx \<longrightarrow>
         item (arrays (snd (process_layer zoom order ms bk l t)) bk) idx = NaN))
   \<and> (overlap_volumes zoom rgb order s = (Inr r, s') \<and> vol_list s = a # rest \<and> a < fresh s \<and>
       max_size_loop [0, 0, 0] (map (\<lambda>a. shape (arrays s a)) (vol_list s)) = Inr ms' \<and>
       resampled_layer zoom order ms' (arrays s a) = Inr z' \<and>
       (\<forall>idx. in_shape (shape z') idx \<longrightarrow> item z' idx = Fin 0) \<longrightarrow>
         (\<forall>idx. in_shape (shape (arrays s' r)) idx \<longrightarrow> item (arrays s' r) idx = NaN))"
proof (intro conjI impI)
  assume "bk < fresh t \<and> resampled_layer zoom order ms (arrays t l) = Inr z \<and>
    shape z = [a0, a1, a2, 3] \<and> shape (arrays t bk) = [a0, a1, a2, 3] \<and>
    0 < a0 \<and> 0 < a1 \<and> 0 < a2 \<and>
    (\<forall>idx. in_shape (shape z) idx \<longrightarrow> item z idx = Fin 0)"
  then have h: "bk < fresh t" "resampled_layer zoom order ms (arrays t l) = Inr z"
    "shape z = [a0, a1, a2, 3]" "shape (arrays t bk) = [a0, a1, a2, 3]"
    "0 < a0" "0 < a1" "0 < a2" "\<forall>idx. in_shape (shape z) idx \<longrightarrow> item z idx = Fin 0"
    by blast+
  have "fst (process_layer zoom order ms bk l t) = Inr () \<and>
      (\<forall>idx. in_shape [a0, a1, a2, 3] idx \<longrightarrow>
         item (arrays (snd (process_layer zoom order ms bk l t)) bk) idx = NaN)"
    by (rule zero_layer_step[OF h])
  then show "fst (process_layer zoom order ms bk l t) = Inr ()"
    and "\<forall>idx. in_shape [a0, a1, a2, 3] idx \<longrightarrow>
         item (arrays (snd (process_layer zoom order ms bk l t)) bk) idx = NaN"
    by simp_all
next
  assume "overlap_volumes zoom rgb order s = (Inr r, s') \<and> vol_list s = a # rest \<and> a < fresh s \<and>
       max_size_loop [0, 0, 0] (map (\<lambda>a. shape (arrays s a)) (vol_list s)) = Inr ms' \<and>
       resampled_layer zoom order ms' (arrays s a) = Inr z' \<and>
       (\<forall>idx. in_shape (shape z') idx \<longrightarrow> item z' idx = Fin 0)"
  then have h: "overlap_volumes zoom rgb order s = (Inr r, s')" "vol_list s = a # rest"
    "a < fresh s"
    "max_size_loop [0, 0, 0] (map (\<lambda>a. shape (arrays s a)) (vol_list s)) = Inr ms'"
    "resampled_layer zoom order ms' (arrays s a) = Inr z'"
    "\<forall>idx. in_shape (shape z') idx \<longrightarrow> item z' idx = Fin 0"
    by blast+
  show "\<forall>idx. in_shape (shape (arrays s' r)) idx \<longrightarrow> item (arrays s' r) idx = NaN"
    by (rule zero_foreground_nan[OF h])
qed

text \<open>
  The claim that the call fails fast is false: for the single volume \<open>[[[0.]]]\<close> the call
  returns, and the returned volume holds NaN in all three channels.
\<close>

theorem zero_layer_counterexample:
  "fst (overlap_volumes nearest_zoom True 0 (state_of [full [1, 1, 1] (Fin 0)])) = Inr 1 \<and>
   array_items (arrays (snd (overlap_volumes nearest_zoom True 0
       (state_of [full [1, 1, 1] (Fin 0)]))) 1) = [NaN, NaN, NaN]"
  by (simp add: overlay_eval)

theorem zero_layer_propagates_nan_witness:
  "fst (overlap_volumes nearest_zoom True 0 (state_of [full [1, 1, 1] (Fin 0)])) = Inr 1 \<and>
   vol_list (state_of [full [1, 1, 1] (Fin 0)]) = [0] \<and>
   item (arrays (snd (overlap_volumes nearest_zoom True 0 (state_of [full [1, 1, 1] (Fin 0)]))) 1)
     [0, 0, 0, 0] = NaN \<and>
   item (arrays (snd (overlap_volumes nearest_zoom True 0 (state_of [full [1, 1, 1] (Fin 0)]))) 1)
     [0, 0, 0, 2] = NaN"
proof -
  let ?A = "full [1, 1, 1] (Fin 0) :: fl ndarray"
  let ?s = "state_of [?A]"
  let ?s' = "snd (overlap_volumes nearest_zoom True 0 ?s)"
  have run: "overlap_volumes nearest_zoom True 0 ?s = (Inr 1, ?s')"
    using zero_volume_run by (simp add: prod_eq_iff)
  have list: "vol_list ?s = 0 # []" and fr: "0 < fresh ?s" and a0: "arrays ?s 0 = ?A"
    by (simp_all add: state_of_def)
  have ms: "max_size_loop [0, 0, 0] (map (\<lambda>a. shape (arrays ?s a)) (vol_list ?s))
      = Inr [1, 1, 1]"
    by (simp add: state_of_def full_def raise_max3)
  have shA: "shape ?A = [1, 1, 1]" by (simp add: full_def)
  from resampled_same_size[OF nearest_zoom_keeps shA, of 0] obtain Z where
    Z: "resampled_layer nearest_zoom 0 [1, 1, 1] ?A = Inr Z" "shape Z = [1, 1, 1, 3]"
    "\<forall>i j k c. i < 1 \<and> j < 1 \<and> k < 1 \<and> c < 3 \<longrightarrow> item Z [i, j, k, c] = item ?A [i, j, k]"
    by auto
  have zero: "\<forall>idx. in_shape (shape Z) idx \<longrightarrow> item Z idx = Fin 0"
    using Z(3) by (auto simp: Z(2) in_shape4 full_def)
  from Z(1) a0 have Z': "resampled_layer nearest_zoom 0 [1, 1, 1] (arrays ?s 0) = Inr Z"
    by simp
  from zero_layer_propagates_nan[where s = ?s and zoom = nearest_zoom and rgb = True
      and order = 0 and r = 1 and s' = ?s' and a = 0 and rest = "[]" and ms' = "[1, 1, 1]"
      and z' = Z] run list fr ms Z' zero
  have nan: "\<forall>idx. in_shape (shape (arrays ?s' 1)) idx \<longrightarrow> item (arrays ?s' 1) idx = NaN"
    by blast
  have sh: "shape (arrays ?s' 1) = [1, 1, 1, 3]" using zero_volume_run by simp
  have "in_shape [1, 1, 1, 3] [0, 0, 0, 0]" "in_shape [1, 1, 1, 3] [0, 0, 0, 2]"
    by (simp_all add: in_shape4)
  then have "in_shape (shape (arrays ?s' 1)) [0, 0, 0, 0]"
    "in_shape (shape (arrays ?s' 1)) [0, 0, 0, 2]"
    by (simp_all only: sh)
  with nan have "item (arrays ?s' 1) [0, 0, 0, 0] = NaN" "item (arrays ?s' 1) [0, 0, 0, 2] = NaN"
    by blast+
  with zero_volume_run list show ?thesis by simp
qed

end
